theory Spec2Isabelle
  imports Main "HOL-Library.Word" "HOL-Library.Multiset"
begin

section \<open>The future core of dispenso: data model\<close>

text \<open>
  The development follows \<^verbatim>\<open>dispenso/detail/future_impl.h\<close> and
  \<^verbatim>\<open>dispenso/detail/future_impl2.h\<close>. A C++ class is a record, a base class is the
  record it extends, a member function takes the object and returns it updated.
  The build with \<^verbatim>\<open>__cpp_exceptions\<close> is the one modelled.
\<close>

subsection \<open>\<^verbatim>\<open>FutureImplResultMember<Result>\<close>\<close>

text \<open>
  \<^verbatim>\<open>resultBuf_\<close> is raw storage: \<open>None\<close> while no \<^verbatim>\<open>Result\<close> has been constructed
  in it. \<^verbatim>\<open>exception_\<close> is a \<^verbatim>\<open>std::exception_ptr\<close>: \<open>None\<close> is the null pointer, an
  exception object is named by a number.
\<close>

type_synonym exception_ptr = nat

record 'r FutureImplResultMember =
  resultBuf :: "'r option"
  exception :: "exception_ptr option"

text \<open>
  The functor of a future is called at most once and takes no argument, so a call
  \<^verbatim>\<open>f()\<close> is given by what it does: it returns a value (\<open>Inr\<close>) or throws (\<open>Inl\<close>).
\<close>

type_synonym 'r outcome = "exception_ptr + 'r"

definition runToResult ::
  "'r outcome \<Rightarrow> ('r, 'z) FutureImplResultMember_scheme \<Rightarrow> ('r, 'z) FutureImplResultMember_scheme"
  where
  "runToResult f m =
     (case f of
        Inr v \<Rightarrow> m\<lparr>resultBuf := Some v\<rparr>
      | Inl e \<Rightarrow> m\<lparr>exception := Some e\<rparr>)"

text \<open>
  \<^verbatim>\<open>result()\<close> rethrows a captured exception (\<open>Inl\<close>); otherwise it returns what the
  buffer holds (\<open>Inr None\<close> is the read of a buffer nothing was constructed in).
\<close>

definition result :: "('r, 'z) FutureImplResultMember_scheme \<Rightarrow> exception_ptr + 'r option" where
  "result m = (case exception m of Some e \<Rightarrow> Inl e | None \<Rightarrow> Inr (resultBuf m))"

definition setAsResult ::
  "'r \<Rightarrow> ('r, 'z) FutureImplResultMember_scheme \<Rightarrow> ('r, 'z) FutureImplResultMember_scheme"
  where
  "setAsResult t m = m\<lparr>resultBuf := Some t\<rparr>"

subsection \<open>\<^verbatim>\<open>FutureImplBase<Result>\<close>\<close>

datatype status = kNotStarted | kRunning | kReady

type_synonym addr = nat

text \<open>
  A node of the then-chain is a \<^verbatim>\<open>OnceCallableImpl\<close> holding a \<^verbatim>\<open>ThenChainFunctor\<close>.
  The functor's \<^verbatim>\<open>next\<close> is written before the node is published and never after, so
  the chain that starts at \<^verbatim>\<open>thenChain_\<close> is the list of its nodes, head first: the
  \<^verbatim>\<open>next\<close> of a node is the address of the node behind it, and \<^verbatim>\<open>thenChain_\<close> is the
  address of the first node (\<open>None\<close> for \<^verbatim>\<open>nullptr\<close>).
\<close>

record ThenChainFunctor =
  impl :: nat
  schedulable :: nat
  asyncPolicy :: bool

type_synonym node = "addr \<times> ThenChainFunctor"

record 'r FutureImplBase = "'r FutureImplResultMember" +
  allowInline :: bool
  status :: status
  refCount :: "32 word"
  taskSetCounter :: "addr option"
  thenChain :: "node list"

definition head_of :: "node list \<Rightarrow> addr option" where
  "head_of ns = (case ns of [] \<Rightarrow> None | n # _ \<Rightarrow> Some (fst n))"

text \<open>
  A newly constructed core: the member initialisers of the class. \<^verbatim>\<open>allowInline_\<close> has
  none, so its value \<open>ai\<close> is whatever the storage held.
\<close>

definition new_FutureImplBase :: "bool \<Rightarrow> 'r FutureImplBase" where
  "new_FutureImplBase ai =
     \<lparr>resultBuf = None, exception = None, allowInline = ai, status = kNotStarted,
      refCount = 2, taskSetCounter = None, thenChain = []\<rparr>"

definition ready :: "('r, 'z) FutureImplBase_scheme \<Rightarrow> bool" where
  "ready c = (status c = kReady)"

definition incRefCount :: "('r, 'z) FutureImplBase_scheme \<Rightarrow> ('r, 'z) FutureImplBase_scheme" where
  "incRefCount c = c\<lparr>refCount := refCount c + 1\<rparr>"

text \<open>
  \<^verbatim>\<open>decRefCountMaybeDestroy\<close>: the second component tells whether \<^verbatim>\<open>dealloc()\<close> was
  called, which is when \<^verbatim>\<open>fetch_sub\<close> returned 1.
\<close>

definition decRefCountMaybeDestroy ::
  "('r, 'z) FutureImplBase_scheme \<Rightarrow> ('r, 'z) FutureImplBase_scheme \<times> bool" where
  "decRefCountMaybeDestroy c = (c\<lparr>refCount := refCount c - 1\<rparr>, refCount c = 1)"

definition setReady :: "('r, 'z) FutureImplBase_scheme \<Rightarrow> ('r, 'z) FutureImplBase_scheme" where
  "setReady c = c\<lparr>status := kReady, refCount := 1\<rparr>"

definition setAllowInline ::
  "bool \<Rightarrow> ('r, 'z) FutureImplBase_scheme \<Rightarrow> ('r, 'z) FutureImplBase_scheme" where
  "setAllowInline allow c = c\<lparr>allowInline := allow\<rparr>"

definition setTaskSetCounter ::
  "addr option \<Rightarrow> ('r, 'z) FutureImplBase_scheme \<Rightarrow> ('r, 'z) FutureImplBase_scheme" where
  "setTaskSetCounter tsc c = c\<lparr>taskSetCounter := tsc\<rparr>"

text \<open>\<^verbatim>\<open>createFutureImpl\<close> and \<^verbatim>\<open>createValueFutureImplReady\<close>; the allocator they take
  the storage from does not enter the value of the core.\<close>

definition createFutureImpl :: "bool \<Rightarrow> bool \<Rightarrow> addr option \<Rightarrow> 'r FutureImplBase" where
  "createFutureImpl ai allow tsc =
     setTaskSetCounter tsc (setAllowInline allow (new_FutureImplBase ai))"

definition createValueFutureImplReady :: "bool \<Rightarrow> 'r \<Rightarrow> 'r FutureImplBase" where
  "createValueFutureImplReady ai t = setReady (setAsResult t (new_FutureImplBase ai))"

subsection \<open>\<^verbatim>\<open>FutureBase<Result>\<close>: the handle\<close>

text \<open>
  A handle is its \<^verbatim>\<open>impl_\<close> pointer. The cores live in a store; \<^verbatim>\<open>dealloc()\<close> removes
  the core from it. A member function that dereferences a pointer the store does not
  map has no defined behaviour: it returns \<open>None\<close>.
\<close>

type_synonym 'r store = "addr \<rightharpoonup> 'r FutureImplBase"

type_synonym FutureBase = "addr option"

definition store_incRefCount :: "addr \<Rightarrow> 'r store \<Rightarrow> 'r store option" where
  "store_incRefCount p st =
     (case st p of None \<Rightarrow> None | Some c \<Rightarrow> Some (st(p \<mapsto> incRefCount c)))"

definition store_decRefCountMaybeDestroy :: "addr \<Rightarrow> 'r store \<Rightarrow> 'r store option" where
  "store_decRefCountMaybeDestroy p st =
     (case st p of
        None \<Rightarrow> None
      | Some c \<Rightarrow>
          (case decRefCountMaybeDestroy c of
             (c', destroy) \<Rightarrow> Some (if destroy then st(p := None) else st(p \<mapsto> c'))))"

definition FutureBase_default :: FutureBase where
  "FutureBase_default = None"

text \<open>The move constructor returns the new handle and what is left of the source.\<close>

definition FutureBase_move_ctor :: "FutureBase \<Rightarrow> FutureBase \<times> FutureBase" where
  "FutureBase_move_ctor f = (f, None)"

definition FutureBase_copy_ctor :: "FutureBase \<Rightarrow> 'r store \<Rightarrow> (FutureBase \<times> 'r store) option" where
  "FutureBase_copy_ctor f st =
     (case f of
        None \<Rightarrow> Some (None, st)
      | Some p \<Rightarrow> map_option (\<lambda>st'. (Some p, st')) (store_incRefCount p st))"

definition FutureBase_copy ::
  "FutureBase \<Rightarrow> FutureBase \<Rightarrow> 'r store \<Rightarrow> (FutureBase \<times> 'r store) option" where
  "FutureBase_copy this f st =
     (if this \<noteq> f then
        (case (case this of None \<Rightarrow> Some st | Some q \<Rightarrow> store_decRefCountMaybeDestroy q st) of
           None \<Rightarrow> None
         | Some st1 \<Rightarrow>
             (case f of
                None \<Rightarrow> Some (None, st1)
              | Some p \<Rightarrow> map_option (\<lambda>st2. (Some p, st2)) (store_incRefCount p st1)))
      else Some (this, st))"

definition FutureBase_dtor :: "FutureBase \<Rightarrow> 'r store \<Rightarrow> 'r store option" where
  "FutureBase_dtor this st =
     (case this of None \<Rightarrow> Some st | Some p \<Rightarrow> store_decRefCountMaybeDestroy p st)"

definition valid :: "FutureBase \<Rightarrow> bool" where
  "valid this = (this \<noteq> None)"

section \<open>The core under concurrent callers\<close>

text \<open>
  One core, and a fixed set of threads that each call one member function of it. A thread
  is the member function it entered (\<open>entry\<close>) and the place it has reached in it (\<open>pc\<close>,
  with the locals that are live there). A step of the system is one step of one thread:
  at most one access to an atomic of the core, so every interleaving of the accesses is
  a schedule. The atomics are sequentially consistent in this model.
\<close>

datatype entry =
    Run                         \<comment> \<open>\<^verbatim>\<open>run()\<close>, the override of \<^verbatim>\<open>OnceCallable::run\<close>\<close>
  | Wait                        \<comment> \<open>\<^verbatim>\<open>wait()\<close>\<close>
  | WaitFor                     \<comment> \<open>\<^verbatim>\<open>waitFor(d)\<close> and \<^verbatim>\<open>waitUntil(tp)\<close>\<close>
  | Install ThenChainFunctor    \<comment> \<open>\<^verbatim>\<open>addToThenChainOrExecute(impl, sched, asyncPolicy)\<close>\<close>

datatype pc =
    WaitCommon                  \<comment> \<open>\<^verbatim>\<open>waitCommon\<close>: the load of \<^verbatim>\<open>status_\<close>\<close>
  | RunLoop status              \<comment> \<open>\<^verbatim>\<open>run(int s)\<close>: the loop test and the exchange, with \<^verbatim>\<open>s\<close>\<close>
  | RunFunc                     \<comment> \<open>\<^verbatim>\<open>runFunc()\<close>\<close>
  | Notify                      \<comment> \<open>\<^verbatim>\<open>status_.notify(kReady)\<close>\<close>
  | CounterSub                  \<comment> \<open>the test of \<^verbatim>\<open>taskSetCounter_\<close> and its \<^verbatim>\<open>fetch_sub\<close>\<close>
  | ChainLoad                   \<comment> \<open>\<^verbatim>\<open>tryExecuteThenChain\<close>: the load of \<^verbatim>\<open>thenChain_\<close>\<close>
  | ChainLoop "addr option"     \<comment> \<open>its loop test and exchange, with \<^verbatim>\<open>head\<close>\<close>
  | HeadRun addr "node list"    \<comment> \<open>inside \<^verbatim>\<open>head->run()\<close>: \<^verbatim>\<open>head\<close>, and the nodes still to run\<close>
  | RunReturned bool            \<comment> \<open>\<^verbatim>\<open>run(int)\<close> has returned to its caller\<close>
  | StatusWait                  \<comment> \<open>inside \<^verbatim>\<open>status_.wait(kReady)\<close>, or the timed wait\<close>
  | StatusLoad1                 \<comment> \<open>\<^verbatim>\<open>addToThenChainOrExecute\<close>: the first load of \<^verbatim>\<open>status_\<close>\<close>
  | FuncCall                    \<comment> \<open>\<^verbatim>\<open>func()\<close> with \<^verbatim>\<open>next == nullptr\<close>\<close>
  | BufferAlloc                 \<comment> \<open>\<^verbatim>\<open>SmallBufferAllocator::alloc()\<close>\<close>
  | NextLoad addr               \<comment> \<open>\<^verbatim>\<open>func.next = thenChain_.load\<close>, with \<^verbatim>\<open>buffer\<close>\<close>
  | HeadPush addr "addr option" \<comment> \<open>the construction of the node and the exchange, with \<^verbatim>\<open>func.next\<close>\<close>
  | StatusLoad2                 \<comment> \<open>the second load of \<^verbatim>\<open>status_\<close>\<close>
  | Returned                    \<comment> \<open>the member function has returned\<close>
  | TimedOut                    \<comment> \<open>the timed wait has returned \<^verbatim>\<open>timeout\<close>\<close>

text \<open>What the threads did, newest first. It is written and never read by a step.\<close>

datatype event =
    Won nat                       \<comment> \<open>the exchange \<^verbatim>\<open>kNotStarted\<close> to \<^verbatim>\<open>kRunning\<close> succeeded\<close>
  | Produced nat                  \<comment> \<open>\<^verbatim>\<open>runFunc()\<close> was called\<close>
  | Published nat                 \<comment> \<open>\<^verbatim>\<open>kReady\<close> was stored\<close>
  | Decremented nat               \<comment> \<open>the task set's counter was decremented\<close>
  | Pushed nat addr ThenChainFunctor  \<comment> \<open>a node became the head of the chain\<close>
  | Invoked nat ThenChainFunctor  \<comment> \<open>the body of a functor ran\<close>
  | Released nat bool             \<comment> \<open>a reference was released; \<open>True\<close>: \<^verbatim>\<open>dealloc()\<close> was called\<close>

text \<open>
  The system: the core, the functor \<open>func\<close> (\<^verbatim>\<open>func_\<close>) of \<^verbatim>\<open>FutureImplSmall\<close> and
  \<^verbatim>\<open>FutureImplAlloc\<close> (\<open>None\<close> for the specialisations without functor, whose
  \<^verbatim>\<open>runFunc\<close> is empty), the atomics a \<^verbatim>\<open>taskSetCounter_\<close> can point to, whether
  \<^verbatim>\<open>dealloc()\<close> was called, the threads, and the trace.
\<close>

record 'r system = "'r FutureImplBase" +
  func :: "'r outcome option"
  counters :: "addr \<Rightarrow> 32 word"
  destroyed :: bool
  threads :: "(entry \<times> pc) list"
  trace :: "event list"

text \<open>
  A schedule names, for each step, the thread that takes it, and settles what the code
  leaves open: whether a \<^verbatim>\<open>compare_exchange_weak\<close> fails though the values agree,
  whether the time of a timed wait is up, and the buffer the allocator returns.
\<close>

record action =
  who :: nat
  fails :: bool
  expires :: bool
  fresh :: addr

definition start :: "entry \<Rightarrow> pc" where
  "start e = (case e of Run \<Rightarrow> RunLoop kNotStarted | Wait \<Rightarrow> WaitCommon
              | WaitFor \<Rightarrow> WaitCommon | Install f \<Rightarrow> StatusLoad1)"

definition spawn :: "entry list \<Rightarrow> (entry \<times> pc) list" where
  "spawn es = map (\<lambda>e. (e, start e)) es"

definition system_of ::
  "'r FutureImplBase \<Rightarrow> 'r outcome option \<Rightarrow> (addr \<Rightarrow> 32 word) \<Rightarrow> entry list \<Rightarrow> 'r system" where
  "system_of c f cs es =
     \<lparr>resultBuf = resultBuf c, exception = exception c, allowInline = allowInline c,
      status = status c, refCount = refCount c, taskSetCounter = taskSetCounter c,
      thenChain = thenChain c, func = f, counters = cs, destroyed = False,
      threads = spawn es, trace = []\<rparr>"

definition goto :: "nat \<Rightarrow> pc \<Rightarrow> 'r system \<Rightarrow> 'r system" where
  "goto t p s = s\<lparr>threads := (threads s)[t := (fst (threads s ! t), p)]\<rparr>"

definition emit :: "event \<Rightarrow> 'r system \<Rightarrow> 'r system" where
  "emit ev s = s\<lparr>trace := ev # trace s\<rparr>"

definition runFunc :: "'r system \<Rightarrow> 'r system" where
  "runFunc s = (case func s of None \<Rightarrow> s | Some f \<Rightarrow> runToResult f s)"

subsection \<open>\<^verbatim>\<open>run(int s)\<close>\<close>

definition run_loop :: "nat \<Rightarrow> action \<Rightarrow> status \<Rightarrow> 'r system \<Rightarrow> 'r system" where
  "run_loop t a v s =
     (if v \<noteq> kNotStarted then goto t (RunReturned False) s
      else if status s = kNotStarted \<and> \<not> fails a
        then emit (Won t) (goto t RunFunc (s\<lparr>status := kRunning\<rparr>))
      else goto t (RunLoop (status s)) s)"

definition run_func :: "nat \<Rightarrow> 'r system \<Rightarrow> 'r system" where
  "run_func t s = emit (Produced t) (goto t Notify (runFunc s))"

text \<open>Modelled from the spec: \<^verbatim>\<open>CompletionEventImpl::notify\<close> is not part of these
  sources (the completion event is an atomic state cell with a wait primitive). It
  stores the value in the status and wakes the threads that wait for it.\<close>

definition notify :: "nat \<Rightarrow> 'r system \<Rightarrow> 'r system" where
  "notify t s = emit (Published t) (goto t CounterSub (s\<lparr>status := kReady\<rparr>))"

definition counter_sub :: "nat \<Rightarrow> 'r system \<Rightarrow> 'r system" where
  "counter_sub t s =
     (case taskSetCounter s of
        None \<Rightarrow> goto t ChainLoad s
      | Some p \<Rightarrow>
          emit (Decremented t)
            (goto t ChainLoad (s\<lparr>counters := (counters s)(p := counters s p - 1)\<rparr>)))"

subsection \<open>\<^verbatim>\<open>tryExecuteThenChain\<close>\<close>

definition after_chain :: "entry \<Rightarrow> pc" where
  "after_chain e = (case e of Install f \<Rightarrow> Returned | _ \<Rightarrow> RunReturned True)"

definition chain_load :: "nat \<Rightarrow> 'r system \<Rightarrow> 'r system" where
  "chain_load t s = goto t (ChainLoop (head_of (thenChain s))) s"

definition chain_loop :: "nat \<Rightarrow> action \<Rightarrow> entry \<Rightarrow> addr option \<Rightarrow> 'r system \<Rightarrow> 'r system" where
  "chain_loop t a e h s =
     (case h of
        None \<Rightarrow> goto t (after_chain e) s
      | Some x \<Rightarrow>
          if head_of (thenChain s) = Some x \<and> \<not> fails a
          then goto t (HeadRun x (thenChain s)) (s\<lparr>thenChain := []\<rparr>)
          else goto t (ChainLoop (head_of (thenChain s))) s)"

text \<open>
  \<^verbatim>\<open>head->run()\<close> calls the functor of the node: it schedules \<^verbatim>\<open>impl\<close> and then calls
  \<^verbatim>\<open>next->run()\<close>, so the nodes of the list run in turn. When the last call has
  returned the thread is back in the loop, its \<^verbatim>\<open>head\<close> unchanged.
\<close>

definition head_run :: "nat \<Rightarrow> addr \<Rightarrow> node list \<Rightarrow> 'r system \<Rightarrow> 'r system" where
  "head_run t x ns s =
     (case ns of
        [] \<Rightarrow> goto t (ChainLoop (Some x)) s
      | n # ns' \<Rightarrow> emit (Invoked t (snd n)) (goto t (HeadRun x ns') s))"

subsection \<open>\<^verbatim>\<open>run()\<close>, \<^verbatim>\<open>wait()\<close>, \<^verbatim>\<open>waitFor\<close> and \<^verbatim>\<open>waitUntil\<close>\<close>

definition waitCommon :: "nat \<Rightarrow> bool \<Rightarrow> 'r system \<Rightarrow> 'r system" where
  "waitCommon t allow s =
     (if status s = kReady then goto t Returned s
      else if allow then goto t (RunLoop (status s)) s
      else goto t StatusWait s)"

definition run_returned :: "nat \<Rightarrow> entry \<Rightarrow> bool \<Rightarrow> 'r system \<Rightarrow> 'r system" where
  "run_returned t e b s =
     (case e of
        Run \<Rightarrow>
          (case decRefCountMaybeDestroy s of
             (s', d) \<Rightarrow> emit (Released t d) (goto t Returned (s'\<lparr>destroyed := destroyed s \<or> d\<rparr>)))
      | Wait \<Rightarrow> goto t (if b then Returned else StatusWait) s
      | WaitFor \<Rightarrow> goto t (if b then Returned else StatusWait) s
      | Install f \<Rightarrow> s)"

text \<open>Modelled from the spec: \<^verbatim>\<open>CompletionEventImpl::wait\<close>, \<^verbatim>\<open>waitFor\<close> and
  \<^verbatim>\<open>waitUntil\<close> are not part of these sources. They return once the status has the
  value, the timed ones also when the time is up.\<close>

definition status_wait :: "nat \<Rightarrow> action \<Rightarrow> entry \<Rightarrow> 'r system \<Rightarrow> 'r system" where
  "status_wait t a e s =
     (if status s = kReady then goto t Returned s
      else if e = WaitFor \<and> expires a then goto t TimedOut s
      else s)"

subsection \<open>\<^verbatim>\<open>addToThenChainOrExecute\<close>\<close>

definition status_load1 :: "nat \<Rightarrow> 'r system \<Rightarrow> 'r system" where
  "status_load1 t s = (if status s = kReady then goto t FuncCall s else goto t BufferAlloc s)"

definition func_call :: "nat \<Rightarrow> entry \<Rightarrow> 'r system \<Rightarrow> 'r system" where
  "func_call t e s =
     (case e of Install f \<Rightarrow> emit (Invoked t f) (goto t Returned s) | _ \<Rightarrow> s)"

definition buffer_alloc :: "nat \<Rightarrow> action \<Rightarrow> 'r system \<Rightarrow> 'r system" where
  "buffer_alloc t a s = goto t (NextLoad (fresh a)) s"

definition next_load :: "nat \<Rightarrow> addr \<Rightarrow> 'r system \<Rightarrow> 'r system" where
  "next_load t b s = goto t (HeadPush b (head_of (thenChain s))) s"

definition head_push ::
  "nat \<Rightarrow> action \<Rightarrow> entry \<Rightarrow> addr \<Rightarrow> addr option \<Rightarrow> 'r system \<Rightarrow> 'r system" where
  "head_push t a e b nx s =
     (case e of
        Install f \<Rightarrow>
          if head_of (thenChain s) = nx \<and> \<not> fails a
          then emit (Pushed t b f) (goto t StatusLoad2 (s\<lparr>thenChain := (b, f) # thenChain s\<rparr>))
          else goto t (HeadPush b (head_of (thenChain s))) s
      | _ \<Rightarrow> s)"

definition status_load2 :: "nat \<Rightarrow> 'r system \<Rightarrow> 'r system" where
  "status_load2 t s = (if status s = kReady then goto t ChainLoad s else goto t Returned s)"

subsection \<open>Steps and schedules\<close>

definition step :: "action \<Rightarrow> 'r system \<Rightarrow> 'r system" where
  "step a s =
     (if length (threads s) \<le> who a then s
      else
        (case threads s ! who a of
           (e, p) \<Rightarrow>
             (case p of
                WaitCommon \<Rightarrow>
                  (case e of
                     Wait \<Rightarrow> waitCommon (who a) True s
                   | WaitFor \<Rightarrow> waitCommon (who a) (allowInline s) s
                   | _ \<Rightarrow> s)
              | RunLoop v \<Rightarrow> run_loop (who a) a v s
              | RunFunc \<Rightarrow> run_func (who a) s
              | Notify \<Rightarrow> notify (who a) s
              | CounterSub \<Rightarrow> counter_sub (who a) s
              | ChainLoad \<Rightarrow> chain_load (who a) s
              | ChainLoop h \<Rightarrow> chain_loop (who a) a e h s
              | HeadRun x ns \<Rightarrow> head_run (who a) x ns s
              | RunReturned b \<Rightarrow> run_returned (who a) e b s
              | StatusWait \<Rightarrow> status_wait (who a) a e s
              | StatusLoad1 \<Rightarrow> status_load1 (who a) s
              | FuncCall \<Rightarrow> func_call (who a) e s
              | BufferAlloc \<Rightarrow> buffer_alloc (who a) a s
              | NextLoad b \<Rightarrow> next_load (who a) b s
              | HeadPush b nx \<Rightarrow> head_push (who a) a e b nx s
              | StatusLoad2 \<Rightarrow> status_load2 (who a) s
              | Returned \<Rightarrow> s
              | TimedOut \<Rightarrow> s)))"

fun exec :: "action list \<Rightarrow> 'r system \<Rightarrow> 'r system" where
  "exec [] s = s"
| "exec (a # as) s = exec as (step a s)"

text \<open>The step of thread \<open>t\<close> in which no exchange fails by itself and no time is up.\<close>

definition act :: "nat \<Rightarrow> action" where
  "act t = \<lparr>who = t, fails = False, expires = False, fresh = t\<rparr>"

definition pc_of :: "'r system \<Rightarrow> nat \<Rightarrow> pc" where
  "pc_of s t = snd (threads s ! t)"

definition entry_of :: "'r system \<Rightarrow> nat \<Rightarrow> entry" where
  "entry_of s t = fst (threads s ! t)"

section \<open>Traces and invariants\<close>

fun winners :: "event list \<Rightarrow> nat list" where
  "winners [] = []"
| "winners (Won t # tr) = t # winners tr"
| "winners (ev # tr) = winners tr"

fun producers :: "event list \<Rightarrow> nat list" where
  "producers [] = []"
| "producers (Produced t # tr) = t # producers tr"
| "producers (ev # tr) = producers tr"

fun publishers :: "event list \<Rightarrow> nat list" where
  "publishers [] = []"
| "publishers (Published t # tr) = t # publishers tr"
| "publishers (ev # tr) = publishers tr"

fun decrementers :: "event list \<Rightarrow> nat list" where
  "decrementers [] = []"
| "decrementers (Decremented t # tr) = t # decrementers tr"
| "decrementers (ev # tr) = decrementers tr"

fun invoked :: "event list \<Rightarrow> ThenChainFunctor list" where
  "invoked [] = []"
| "invoked (Invoked t f # tr) = f # invoked tr"
| "invoked (ev # tr) = invoked tr"

text \<open>The number of threads at a place.\<close>

definition cnt :: "pc \<Rightarrow> (entry \<times> pc) list \<Rightarrow> nat" where
  "cnt p l = length (filter (\<lambda>th. snd th = p) l)"

definition at :: "pc \<Rightarrow> 'r system \<Rightarrow> nat" where
  "at p s = cnt p (threads s)"

definition inv_run :: "'r system \<Rightarrow> bool" where
  "inv_run s =
     (length (winners (trace s)) = (if status s = kNotStarted then 0 else 1) \<and>
      length (producers (trace s)) + at RunFunc s = length (winners (trace s)) \<and>
      length (publishers (trace s)) + at RunFunc s + at Notify s = length (winners (trace s)) \<and>
      length (decrementers (trace s)) + at RunFunc s + at Notify s + at CounterSub s
        = (if taskSetCounter s = None then at RunFunc s + at Notify s + at CounterSub s
           else length (winners (trace s))) \<and>
      at RunFunc s + at Notify s + at CounterSub s \<le> length (winners (trace s)) \<and>
      (status s = kRunning) = (at RunFunc s + at Notify s = 1))"

text \<open>Places that are reached only after \<^verbatim>\<open>kReady\<close> was stored or seen.\<close>

definition needs_ready :: "pc \<Rightarrow> bool" where
  "needs_ready p =
     (case p of CounterSub \<Rightarrow> True | ChainLoad \<Rightarrow> True | ChainLoop h \<Rightarrow> True
      | HeadRun x ns \<Rightarrow> True | FuncCall \<Rightarrow> True | RunReturned b \<Rightarrow> b | _ \<Rightarrow> False)"

definition inv_ready :: "'r system \<Rightarrow> bool" where
  "inv_ready s = (\<forall>th \<in> set (threads s). needs_ready (snd th) \<longrightarrow> status s = kReady)"

text \<open>The places of \<^verbatim>\<open>addToThenChainOrExecute\<close> and of the \<^verbatim>\<open>tryExecuteThenChain\<close> it calls.\<close>

definition installer_pc :: "pc \<Rightarrow> bool" where
  "installer_pc p =
     (case p of StatusLoad1 \<Rightarrow> True | FuncCall \<Rightarrow> True | BufferAlloc \<Rightarrow> True | NextLoad b \<Rightarrow> True
      | HeadPush b nx \<Rightarrow> True | StatusLoad2 \<Rightarrow> True | ChainLoad \<Rightarrow> True | ChainLoop h \<Rightarrow> True
      | HeadRun x ns \<Rightarrow> True | Returned \<Rightarrow> True | _ \<Rightarrow> False)"

definition wf_thread :: "entry \<times> pc \<Rightarrow> bool" where
  "wf_thread th = (case fst th of Install f \<Rightarrow> installer_pc (snd th) | _ \<Rightarrow> True)"

definition inv_wf :: "'r system \<Rightarrow> bool" where
  "inv_wf s = (\<forall>th \<in> set (threads s). wf_thread th)"

text \<open>The functors a thread has taken off the chain and not yet run, and the functor
  an installing thread has handed over: pushed on the chain, or called at once.\<close>

definition held :: "entry \<times> pc \<Rightarrow> ThenChainFunctor list" where
  "held th = (case snd th of HeadRun x ns \<Rightarrow> map snd ns | _ \<Rightarrow> [])"

definition past_install :: "pc \<Rightarrow> bool" where
  "past_install p =
     (case p of StatusLoad2 \<Rightarrow> True | ChainLoad \<Rightarrow> True | ChainLoop h \<Rightarrow> True
      | HeadRun x ns \<Rightarrow> True | Returned \<Rightarrow> True | _ \<Rightarrow> False)"

definition handed :: "entry \<times> pc \<Rightarrow> ThenChainFunctor list" where
  "handed th = (case fst th of Install f \<Rightarrow> if past_install (snd th) then [f] else [] | _ \<Rightarrow> [])"

definition inv_chain :: "'r system \<Rightarrow> bool" where
  "inv_chain s =
     (mset (map snd (thenChain s)) + mset (concat (map held (threads s))) + mset (invoked (trace s))
      = mset (concat (map handed (threads s))))"

text \<open>Places from which a thread is bound to look at the chain once more.\<close>

definition covering :: "pc \<Rightarrow> bool" where
  "covering p =
     (case p of CounterSub \<Rightarrow> True | ChainLoad \<Rightarrow> True | ChainLoop h \<Rightarrow> h \<noteq> None
      | HeadRun x ns \<Rightarrow> True | StatusLoad2 \<Rightarrow> True | _ \<Rightarrow> False)"

definition inv_cover :: "'r system \<Rightarrow> bool" where
  "inv_cover s =
     (status s = kReady \<and> thenChain s \<noteq> [] \<longrightarrow> (\<exists>th \<in> set (threads s). covering (snd th)))"

text \<open>The threads, by number, that are at a place with a property.\<close>

fun ids :: "(pc \<Rightarrow> bool) \<Rightarrow> nat \<Rightarrow> (entry \<times> pc) list \<Rightarrow> nat list" where
  "ids P n [] = []"
| "ids P n (th # l) = (if P (snd th) then [n] else []) @ ids P (Suc n) l"

text \<open>The order of the events of a trace (newest first): the functor was called by a
  thread that had won the exchange, \<^verbatim>\<open>kReady\<close> was stored by a thread that had called
  the functor, the counter was decremented by a thread that had stored \<^verbatim>\<open>kReady\<close>, and
  a continuation ran when \<^verbatim>\<open>kReady\<close> had been stored.\<close>

fun ordered :: "event list \<Rightarrow> bool" where
  "ordered [] = True"
| "ordered (Produced t # tr) = (t \<in> set (winners tr) \<and> ordered tr)"
| "ordered (Published t # tr) = (t \<in> set (producers tr) \<and> ordered tr)"
| "ordered (Decremented t # tr) = (t \<in> set (publishers tr) \<and> ordered tr)"
| "ordered (Invoked t f # tr) = (publishers tr \<noteq> [] \<and> ordered tr)"
| "ordered (ev # tr) = ordered tr"

definition inv_who :: "'r system \<Rightarrow> bool" where
  "inv_who s =
     (set (ids (\<lambda>p. p = RunFunc \<or> p = Notify \<or> p = CounterSub) 0 (threads s)) \<subseteq> set (winners (trace s)) \<and>
      set (ids (\<lambda>p. p = Notify \<or> p = CounterSub) 0 (threads s)) \<subseteq> set (producers (trace s)) \<and>
      set (ids (\<lambda>p. p = CounterSub) 0 (threads s)) \<subseteq> set (publishers (trace s)) \<and>
      ordered (trace s))"

definition inv_slot :: "'r system \<Rightarrow> bool" where
  "inv_slot s =
     (resultBuf s =
        (if producers (trace s) = [] then None
         else (case func s of Some (Inr v) \<Rightarrow> Some v | _ \<Rightarrow> None)) \<and>
      exception s =
        (if producers (trace s) = [] then None
         else (case func s of Some (Inl e) \<Rightarrow> Some e | _ \<Rightarrow> None)))"

definition inv_counter :: "(addr \<Rightarrow> 32 word) \<Rightarrow> 'r system \<Rightarrow> bool" where
  "inv_counter cs s =
     (counters s =
        (case taskSetCounter s of
           None \<Rightarrow> cs
         | Some c \<Rightarrow> cs(c := cs c - of_nat (length (decrementers (trace s))))))"

definition inv :: "(addr \<Rightarrow> 32 word) \<Rightarrow> 'r system \<Rightarrow> bool" where
  "inv cs s = (inv_run s \<and> inv_ready s \<and> inv_wf s \<and> inv_chain s \<and> inv_cover s \<and> inv_who s
               \<and> inv_slot s \<and> inv_counter cs s)"

subsection \<open>Runs, paths of single calls\<close>

definition future_system ::
  "bool \<Rightarrow> bool \<Rightarrow> addr option \<Rightarrow> 'r outcome \<Rightarrow> (addr \<Rightarrow> 32 word) \<Rightarrow> entry list \<Rightarrow> 'r system" where
  "future_system ai allow tsc f cs es = system_of (createFutureImpl ai allow tsc) (Some f) cs es"

fun actor :: "event \<Rightarrow> nat" where
  "actor (Won t) = t"
| "actor (Produced t) = t"
| "actor (Published t) = t"
| "actor (Decremented t) = t"
| "actor (Pushed t b f) = t"
| "actor (Invoked t f) = t"
| "actor (Released t d) = t"

definition events_of :: "nat \<Rightarrow> event list \<Rightarrow> event list" where
  "events_of t tr = filter (\<lambda>ev. actor ev = t) tr"



text \<open>The call \<^verbatim>\<open>run()\<close> of thread \<open>t\<close> when the status is no longer \<^verbatim>\<open>kNotStarted\<close>\<close>

definition run_stage :: "pc \<Rightarrow> bool" where
  "run_stage p = (case p of RunLoop v \<Rightarrow> True | RunReturned b \<Rightarrow> \<not> b | Returned \<Rightarrow> True | _ \<Rightarrow> False)"

definition noop_run :: "nat \<Rightarrow> event list \<Rightarrow> 'r system \<Rightarrow> bool" where
  "noop_run t tr0 s =
     (t < length (threads s) \<and> status s \<noteq> kNotStarted \<and> fst (threads s ! t) = Run \<and>
      run_stage (snd (threads s ! t)) \<and>
      (\<exists>d. events_of t (trace s) =
            (if snd (threads s ! t) = Returned then [Released t d] else []) @ tr0))"

text \<open>The call \<^verbatim>\<open>addToThenChainOrExecute\<close> of thread \<open>t\<close> when the status is \<^verbatim>\<open>kReady\<close>.\<close>

definition direct_stage :: "pc \<Rightarrow> bool" where
  "direct_stage p = (p = StatusLoad1 \<or> p = FuncCall \<or> p = Returned)"

definition direct_call :: "nat \<Rightarrow> ThenChainFunctor \<Rightarrow> event list \<Rightarrow> 'r system \<Rightarrow> bool" where
  "direct_call t f tr0 s =
     (t < length (threads s) \<and> status s = kReady \<and> fst (threads s ! t) = Install f \<and>
      direct_stage (snd (threads s ! t)) \<and>
      events_of t (trace s) = (if snd (threads s ! t) = Returned then [Invoked t f] else []) @ tr0)"

subsection \<open>An example system\<close>

text \<open>A core attached to the task-set counter at address 0, which stands at 1; its functor
  returns 5. Four threads: the scheduled run, two installers of continuations, and a
  waiter.\<close>

definition functor1 :: ThenChainFunctor where
  "functor1 = \<lparr>impl = 1, schedulable = 0, asyncPolicy = False\<rparr>"

definition functor2 :: ThenChainFunctor where
  "functor2 = \<lparr>impl = 2, schedulable = 0, asyncPolicy = True\<rparr>"

definition example_system :: "nat system" where
  "example_system =
     future_system False False (Some 0) (Inr 5) (\<lambda>c. 1) [Run, Install functor1, Install functor2, Wait]"

text \<open>The same with a functor that throws the exception 3, and a core with a single
  waiter and \<^verbatim>\<open>allowInline_\<close> false.\<close>

definition failing_system :: "nat system" where
  "failing_system = future_system False False None (Inl 3) (\<lambda>c. 0) [Run, Wait]"

definition waiting_system :: "nat system" where
  "waiting_system = future_system False False None (Inr 5) (\<lambda>c. 0) [Wait]"

section \<open>\<^verbatim>\<open>when_all\<close>\<close>

text \<open>
  \<^verbatim>\<open>when_all(first, last)\<close> and \<^verbatim>\<open>when_all(futures...)\<close> of
  \<^verbatim>\<open>future_impl2.h\<close>. An input future is summarised by what the shared state can see of
  it: its status, its result member, what its functor will do, and the number of fan-in
  continuations that wait on its then-chain. \<^verbatim>\<open>then\<close> on an input that is ready runs the
  continuation at once, on an input that is not ready it leaves the continuation on the
  chain; a continuation on the chain of a ready input is run by whichever thread takes
  the chain. The continuation itself is one \<^verbatim>\<open>fetch_sub\<close> on the shared counter and,
  when that returned 1, the call of \<^verbatim>\<open>shared->f\<close>.
\<close>

text \<open>
  In the tuple form the loop of \<^verbatim>\<open>then\<close> is the call
  \<^verbatim>\<open>forEach(shared->tuple, [shared = std::move(shared)](auto& future) {...})\<close>: one
  argument reads \<^verbatim>\<open>shared\<close> and the initialiser of the other moves from it. The order in
  which the arguments of a call are evaluated is not specified in C++, so it is a
  parameter of the tuple form: with \<open>TupleFirst\<close> the tuple is reached before \<^verbatim>\<open>shared\<close>
  is moved into the closure, with \<open>LambdaFirst\<close> the pointer \<^verbatim>\<open>shared\<close> is null when
  \<^verbatim>\<open>shared->tuple\<close> is evaluated. The iterator form copies \<^verbatim>\<open>shared\<close> into its closures.
\<close>

datatype arg_order = TupleFirst | LambdaFirst

datatype form = Range | Tuple arg_order

record 'r input = "'r FutureImplResultMember" +
  in_status :: status
  in_func :: "'r outcome"
  in_chain :: nat

datatype wa_pc =
    EmptyCheck          \<comment> \<open>\<^verbatim>\<open>if (first == last)\<close>\<close>
  | MakeShared          \<comment> \<open>\<^verbatim>\<open>std::make_shared\<close>\<close>
  | Construct           \<comment> \<open>\<^verbatim>\<open>ResultFuture res(std::move(whenComplete), interceptor)\<close>\<close>
  | StoreF              \<comment> \<open>\<^verbatim>\<open>shared->f = std::move(interceptor.savedOffFn)\<close>\<close>
  | Then "nat list"     \<comment> \<open>the loop of \<^verbatim>\<open>then\<close>, with the inputs still to visit\<close>
  | WReturned           \<comment> \<open>\<^verbatim>\<open>return res\<close>\<close>

datatype wa_event =
    StoredF                   \<comment> \<open>\<^verbatim>\<open>shared->f\<close> was assigned\<close>
  | Installed nat             \<comment> \<open>\<^verbatim>\<open>then\<close> was called on an input\<close>
  | Observed nat "64 word"    \<comment> \<open>the continuation of an input did its \<^verbatim>\<open>fetch_sub\<close>, which returned the value\<close>
  | Fired nat                 \<comment> \<open>the continuation of an input called \<^verbatim>\<open>shared->f\<close>\<close>

text \<open>
  \<^verbatim>\<open>WhenAllSharedVec\<close> (\<^verbatim>\<open>WhenAllSharedTuple\<close>) with its fields \<open>vec\<close>, \<open>shared_count\<close>
  and \<open>shared_f\<close>; the \<^verbatim>\<open>savedOffFn\<close> of the \<^verbatim>\<open>InterceptionInvoker\<close>; the status of the
  core of \<^verbatim>\<open>res\<close> (\<open>None\<close> before it is created) and its result member, which is to
  hold the inputs; the inputs that the running \<^verbatim>\<open>whenComplete\<close> has still to wait for;
  the place of the thread in \<^verbatim>\<open>when_all\<close>, and which \<^verbatim>\<open>when_all\<close> it is. A
  \<^verbatim>\<open>OnceFunction\<close> is given by whether it holds a callable. \<open>res_started\<close> counts the
  calls of \<^verbatim>\<open>whenComplete\<close>, \<open>completed\<close> lists the inputs in the order in which they
  became ready after the call (newest first), and \<open>wa_trace\<close> lists what happened to the
  shared state (newest first); the code has none of the three.
\<close>

record 'r when_all =
  vec :: "'r input list"
  shared_count :: "64 word"
  shared_f :: bool
  savedOffFn :: bool
  order :: "nat list"
  res_status :: "status option"
  res_member :: "'r input list FutureImplResultMember"
  walker :: "nat list option"
  res_started :: nat
  completed :: "nat list"
  form :: form
  wa_pc :: wa_pc
  crashed :: bool
  wa_trace :: "wa_event list"

text \<open>The iterator form visits the inputs first to last; \<^verbatim>\<open>forEach\<close> over the tuple
  starts at the last index and goes down to 0. The overload \<^verbatim>\<open>when_all()\<close> without
  futures has no tuple to visit.\<close>

fun ForEachApply :: "nat \<Rightarrow> nat list" where
  "ForEachApply 0 = [0]"
| "ForEachApply (Suc index) = Suc index # ForEachApply index"

definition visit :: "form \<Rightarrow> nat \<Rightarrow> nat list" where
  "visit fm n =
     (case fm of Range \<Rightarrow> [0..<n] | Tuple ord \<Rightarrow> if n = 0 then [] else ForEachApply (n - 1))"

text \<open>The state at the call. The iterator form starts at its test \<^verbatim>\<open>first == last\<close>; the
  tuple form has no such test and starts at \<^verbatim>\<open>std::make_shared\<close>, and its overload
  without futures is the body \<^verbatim>\<open>return make_ready_future(std::tuple<>())\<close>, which is
  the branch of the test for no inputs.\<close>

definition when_all_init :: "form \<Rightarrow> 'r input list \<Rightarrow> 'r when_all" where
  "when_all_init fm ins =
     \<lparr>vec = ins, shared_count = 0, shared_f = False, savedOffFn = False,
      order = visit fm (length ins), res_status = None,
      res_member = \<lparr>resultBuf = None, exception = None\<rparr>, walker = None, res_started = 0,
      completed = [], form = fm,
      wa_pc = (case fm of Range \<Rightarrow> EmptyCheck
               | Tuple ord \<Rightarrow> if ins = [] then EmptyCheck else MakeShared),
      crashed = False, wa_trace = []\<rparr>"

text \<open>The thunk that the interceptor saved is \<^verbatim>\<open>OnceFunction(impl_, true)\<close>: it calls
  \<^verbatim>\<open>run()\<close> of the core of \<^verbatim>\<open>res\<close>, which starts \<^verbatim>\<open>whenComplete\<close> when the status is
  still \<^verbatim>\<open>kNotStarted\<close> and does nothing otherwise.\<close>

definition run_res :: "'r when_all \<Rightarrow> 'r when_all" where
  "run_res s =
     (if res_status s = Some kNotStarted
      then s\<lparr>res_status := Some kRunning, walker := Some (order s),
             res_started := res_started s + 1\<rparr>
      else s)"

text \<open>Modelled from the spec: \<^verbatim>\<open>OnceFunction\<close> is not part of these sources (a
  type-erased callable for a single invocation). It holds a callable or does not; a
  call of one that holds none is an error (\<open>crashed\<close>), and a call uses the callable
  up. The call \<^verbatim>\<open>shared->f()\<close> by the continuation of input \<open>i\<close>:\<close>

definition fire :: "nat \<Rightarrow> 'r when_all \<Rightarrow> 'r when_all" where
  "fire i s =
     (if shared_f s
      then run_res (s\<lparr>shared_f := False, wa_trace := Fired i # wa_trace s\<rparr>)
      else s\<lparr>crashed := True\<rparr>)"

text \<open>The continuation of input \<open>i\<close>:
  \<^verbatim>\<open>if (shared->count.fetch_sub(1, relaxed) == 1) shared->f();\<close>\<close>

definition fan_in :: "nat \<Rightarrow> 'r when_all \<Rightarrow> 'r when_all" where
  "fan_in i s =
     (if shared_count s = 1
      then fire i (s\<lparr>shared_count := shared_count s - 1,
                     wa_trace := Observed i (shared_count s) # wa_trace s\<rparr>)
      else s\<lparr>shared_count := shared_count s - 1,
             wa_trace := Observed i (shared_count s) # wa_trace s\<rparr>)"

text \<open>Modelled from the spec: \<^verbatim>\<open>kImmediateInvoker\<close> is not part of these sources (it
  runs the callable synchronously on the submitting thread). So
  \<^verbatim>\<open>s.then(continuation, kImmediateInvoker)\<close> on input \<open>i\<close>, which is \<^verbatim>\<open>thenImpl\<close> and
  \<^verbatim>\<open>addToThenChainOrExecute\<close>, runs the continuation at once when the input is ready
  and leaves it on the chain otherwise.\<close>

definition install :: "nat \<Rightarrow> 'r when_all \<Rightarrow> 'r when_all" where
  "install i s =
     (if in_status (vec s ! i) = kReady
      then fan_in i (s\<lparr>wa_trace := Installed i # wa_trace s\<rparr>)
      else s\<lparr>vec := (vec s)[i := (vec s ! i)\<lparr>in_chain := in_chain (vec s ! i) + 1\<rparr>],
             wa_trace := Installed i # wa_trace s\<rparr>)"

text \<open>
  The thread in \<^verbatim>\<open>when_all\<close>, one statement at a time. For no inputs the result is
  \<^verbatim>\<open>make_ready_future\<close> of the empty container, which is \<^verbatim>\<open>createValueFutureImplReady\<close>:
  \<^verbatim>\<open>setAsResult\<close>, then \<^verbatim>\<open>kReady\<close>. In the tuple form with \<open>LambdaFirst\<close> every input is
  reached through the null pointer: the call of \<^verbatim>\<open>then\<close> is an error (\<open>crashed\<close>), no
  continuation is installed and the thread goes no further.
\<close>

definition advance :: "'r when_all \<Rightarrow> 'r when_all" where
  "advance s =
     (case wa_pc s of
        EmptyCheck \<Rightarrow>
          if vec s = []
          then s\<lparr>res_member := setAsResult [] (res_member s), res_status := Some kReady,
                 wa_pc := WReturned\<rparr>
          else s\<lparr>wa_pc := MakeShared\<rparr>
      | MakeShared \<Rightarrow>
          s\<lparr>shared_count := of_nat (length (vec s)), shared_f := False, wa_pc := Construct\<rparr>
      | Construct \<Rightarrow>
          s\<lparr>res_status := Some kNotStarted, savedOffFn := True, wa_pc := StoreF\<rparr>
      | StoreF \<Rightarrow>
          s\<lparr>shared_f := savedOffFn s, savedOffFn := False, wa_pc := Then (order s),
            wa_trace := StoredF # wa_trace s\<rparr>
      | Then [] \<Rightarrow> s\<lparr>wa_pc := WReturned\<rparr>
      | Then (i # rest) \<Rightarrow>
          if form s = Tuple LambdaFirst then s\<lparr>crashed := True\<rparr>
          else install i (s\<lparr>wa_pc := Then rest\<rparr>)
      | WReturned \<Rightarrow> s)"

text \<open>The functor of input \<open>i\<close> completes on some thread, as in \<^verbatim>\<open>run(int)\<close>:
  \<^verbatim>\<open>runToResult\<close>, then \<^verbatim>\<open>kReady\<close>.\<close>

definition complete :: "nat \<Rightarrow> 'r when_all \<Rightarrow> 'r when_all" where
  "complete i s =
     (if i < length (vec s) \<and> in_status (vec s ! i) \<noteq> kReady
      then s\<lparr>vec := (vec s)[i := (runToResult (in_func (vec s ! i)) (vec s ! i))\<lparr>in_status := kReady\<rparr>],
             completed := i # completed s\<rparr>
      else s)"

text \<open>A thread that took the then-chain of the ready input \<open>i\<close> runs a continuation.\<close>

definition drain :: "nat \<Rightarrow> 'r when_all \<Rightarrow> 'r when_all" where
  "drain i s =
     (if i < length (vec s) \<and> in_status (vec s ! i) = kReady \<and> 0 < in_chain (vec s ! i)
      then fan_in i (s\<lparr>vec := (vec s)[i := (vec s ! i)\<lparr>in_chain := in_chain (vec s ! i) - 1\<rparr>]\<rparr>)
      else s)"

text \<open>
  \<^verbatim>\<open>whenComplete\<close> returns \<^verbatim>\<open>std::move(shared->vec)\<close> (nothing in it throws: a \<^verbatim>\<open>wait()\<close>
  on an input goes through \<^verbatim>\<open>runToResult\<close>, which catches); \<^verbatim>\<open>runToResult\<close> of the
  core of \<^verbatim>\<open>res\<close> puts the inputs into its buffer and \<^verbatim>\<open>run(int)\<close> stores \<^verbatim>\<open>kReady\<close>.
\<close>

definition whenComplete_returns :: "'r when_all \<Rightarrow> 'r when_all" where
  "whenComplete_returns s =
     s\<lparr>res_member := runToResult (Inr (vec s)) (res_member s), walker := None,
       res_status := Some kReady\<rparr>"

text \<open>
  One turn of the loop of \<^verbatim>\<open>whenComplete\<close>: it leaves the loop when the counter is 0 or
  no input is left, and returns; otherwise it waits for the next input, and goes on when
  that is ready.
\<close>

definition walk :: "'r when_all \<Rightarrow> 'r when_all" where
  "walk s =
     (case walker s of
        None \<Rightarrow> s
      | Some [] \<Rightarrow> whenComplete_returns s
      | Some (i # rest) \<Rightarrow>
          if shared_count s = 0 then whenComplete_returns s
          else if in_status (vec s ! i) = kReady then s\<lparr>walker := Some rest\<rparr>
          else s)"

text \<open>A holder of \<^verbatim>\<open>res\<close> calls \<^verbatim>\<open>wait()\<close> or \<^verbatim>\<open>get()\<close>, which runs the functor of
  \<^verbatim>\<open>res\<close> inline when nobody has started it.\<close>

definition wait_res :: "'r when_all \<Rightarrow> 'r when_all" where
  "wait_res s = (if wa_pc s = WReturned then run_res s else s)"

datatype wa_action = Advance | Complete nat | Drain nat | Walk | WaitRes

fun wa_step :: "wa_action \<Rightarrow> 'r when_all \<Rightarrow> 'r when_all" where
  "wa_step Advance s = advance s"
| "wa_step (Complete i) s = complete i s"
| "wa_step (Drain i) s = drain i s"
| "wa_step Walk s = walk s"
| "wa_step WaitRes s = wait_res s"

fun wa_exec :: "wa_action list \<Rightarrow> 'r when_all \<Rightarrow> 'r when_all" where
  "wa_exec [] s = s"
| "wa_exec (a # as) s = wa_exec as (wa_step a s)"

definition new_input :: "status \<Rightarrow> 'r outcome \<Rightarrow> 'r input" where
  "new_input st fn =
     (let m = \<lparr>resultBuf = None, exception = None, in_status = st, in_func = fn, in_chain = 0\<rparr>
      in if st = kReady then runToResult fn m else m)"

subsection \<open>Traces and invariants of \<^verbatim>\<open>when_all\<close>\<close>

fun installeds :: "wa_event list \<Rightarrow> nat list" where
  "installeds [] = []"
| "installeds (Installed i # tr) = i # installeds tr"
| "installeds (ev # tr) = installeds tr"

fun observers :: "wa_event list \<Rightarrow> nat list" where
  "observers [] = []"
| "observers (Observed i v # tr) = i # observers tr"
| "observers (ev # tr) = observers tr"

fun firers :: "wa_event list \<Rightarrow> nat list" where
  "firers [] = []"
| "firers (Fired i # tr) = i # firers tr"
| "firers (ev # tr) = firers tr"

text \<open>The order of the events (newest first): \<^verbatim>\<open>then\<close> was called only after
  \<^verbatim>\<open>shared->f\<close> had been assigned; a continuation ran only after \<^verbatim>\<open>then\<close> had been called
  on its input; and \<^verbatim>\<open>shared->f\<close> was called by the continuation that had just seen 1.\<close>

fun wa_ordered :: "wa_event list \<Rightarrow> bool" where
  "wa_ordered [] = True"
| "wa_ordered (Installed i # tr) = (StoredF \<in> set tr \<and> wa_ordered tr)"
| "wa_ordered (Fired i # tr) = ((\<exists>tr'. tr = Observed i 1 # tr') \<and> wa_ordered tr)"
| "wa_ordered (Observed i v # tr) = (i \<in> set (installeds tr) \<and> wa_ordered tr)"
| "wa_ordered (StoredF # tr) = wa_ordered tr"

fun todo_at :: "wa_pc \<Rightarrow> nat list \<Rightarrow> nat list" where
  "todo_at (Then rest) ord = rest"
| "todo_at WReturned ord = []"
| "todo_at p ord = ord"

definition todo :: "'r when_all \<Rightarrow> nat list" where
  "todo s = todo_at (wa_pc s) (order s)"

definition before_store :: "wa_pc \<Rightarrow> bool" where
  "before_store p = (p = EmptyCheck \<or> p = MakeShared \<or> p = Construct \<or> p = StoreF)"

text \<open>
  The invariant, for \<open>n\<close> inputs, of the iterator form and of the tuple form in which
  the tuple is reached before \<^verbatim>\<open>shared\<close> is moved (or there is no input). While the
  continuation of input \<open>x\<close> is between its installation (or its removal from the chain)
  and its \<^verbatim>\<open>fetch_sub\<close>, that input is excepted (\<open>Some x\<close>).
\<close>

definition input_ok :: "nat option \<Rightarrow> 'r when_all \<Rightarrow> nat \<Rightarrow> bool" where
  "input_ok x s i =
     (if x = Some i
      then in_chain (vec s ! i) = 0 \<and> i \<in> set (installeds (wa_trace s))
           \<and> i \<notin> set (observers (wa_trace s)) \<and> in_status (vec s ! i) = kReady
      else in_chain (vec s ! i) =
             (if i \<in> set (installeds (wa_trace s)) \<and> i \<notin> set (observers (wa_trace s)) then 1 else 0)
           \<and> (i \<in> set (observers (wa_trace s)) \<longrightarrow>
                 i \<in> set (installeds (wa_trace s)) \<and> in_status (vec s ! i) = kReady))"

definition wa_inv :: "nat option \<Rightarrow> nat \<Rightarrow> 'r when_all \<Rightarrow> bool" where
  "wa_inv x n s =
     (length (vec s) = n \<and> distinct (order s) \<and> set (order s) = {..<n}
      \<and> rev (installeds (wa_trace s)) @ todo s = order s
      \<and> (\<forall>i<n. input_ok x s i)
      \<and> distinct (observers (wa_trace s)) \<and> set (observers (wa_trace s)) \<subseteq> {..<n}
      \<and> (wa_pc s \<noteq> EmptyCheck \<and> wa_pc s \<noteq> MakeShared \<and> order s \<noteq> [] \<longrightarrow>
            shared_count s = of_nat (n - length (observers (wa_trace s))))
      \<and> firers (wa_trace s) =
            (if length (observers (wa_trace s)) = n \<and> observers (wa_trace s) \<noteq> []
             then [hd (observers (wa_trace s))] else [])
      \<and> (before_store (wa_pc s) \<longrightarrow> wa_trace s = [])
      \<and> (order s = [] \<longrightarrow> (wa_pc s = EmptyCheck \<or> wa_pc s = WReturned) \<and> wa_trace s = [])
      \<and> (StoredF \<in> set (wa_trace s)) = (\<not> before_store (wa_pc s) \<and> order s \<noteq> [])
      \<and> shared_f s = (StoredF \<in> set (wa_trace s) \<and> firers (wa_trace s) = [])
      \<and> savedOffFn s = (wa_pc s = StoreF)
      \<and> \<not> crashed s
      \<and> wa_ordered (wa_trace s)
      \<and> (\<forall>i. Observed i 1 \<in> set (wa_trace s) \<longrightarrow> Fired i \<in> set (wa_trace s))
      \<and> (form s = Tuple LambdaFirst \<longrightarrow> order s = []))"


text \<open>The core of \<^verbatim>\<open>res\<close>: its functor runs while it is \<^verbatim>\<open>kRunning\<close>, the inputs the
  loop has passed are ready, and \<^verbatim>\<open>res\<close> is ready only when all inputs are.\<close>

definition res_inv :: "'r when_all \<Rightarrow> bool" where
  "res_inv s =
     ((walker s \<noteq> None) = (res_status s = Some kRunning)
      \<and> (\<forall>rest. walker s = Some rest \<longrightarrow>
            (\<exists>passed. order s = passed @ rest \<and> (\<forall>j \<in> set passed. in_status (vec s ! j) = kReady)))
      \<and> (res_status s = Some kReady \<longrightarrow>
            (\<forall>i < length (vec s). in_status (vec s ! i) = kReady))
      \<and> (res_status s = None) = (wa_pc s = EmptyCheck \<or> wa_pc s = MakeShared \<or> wa_pc s = Construct)
      \<and> (order s = [] \<and> wa_pc s = WReturned \<longrightarrow> res_status s = Some kReady)
      \<and> (firers (wa_trace s) \<noteq> [] \<longrightarrow>
            res_status s = Some kRunning \<or> res_status s = Some kReady)
      \<and> res_started s =
            (if res_status s = Some kRunning \<or> res_status s = Some kReady \<and> order s \<noteq> []
             then 1 else 0))"

text \<open>The inputs against what they were at the call (status and functor of each): the
  functor of an input is never replaced, an input that is not ready holds neither a value
  nor an exception, and a ready input holds what \<^verbatim>\<open>runToResult\<close> of its functor left.\<close>

definition spec_inv :: "(status \<times> 'r outcome) list \<Rightarrow> 'r when_all \<Rightarrow> bool" where
  "spec_inv specs s =
     (length (vec s) = length specs
      \<and> (\<forall>i < length specs.
            in_func (vec s ! i) = snd (specs ! i)
            \<and> (if in_status (vec s ! i) = kReady
                then result (vec s ! i) =
                       result (runToResult (snd (specs ! i)) \<lparr>resultBuf = None, exception = None\<rparr>)
                else resultBuf (vec s ! i) = None \<and> exception (vec s ! i) = None)))"

text \<open>The result member of \<^verbatim>\<open>res\<close>: it never holds an exception, and it holds a value
  exactly when \<^verbatim>\<open>res\<close> is ready, which is the inputs, all ready, each with what
  \<^verbatim>\<open>runToResult\<close> of its functor left.\<close>

definition agg_inv :: "(status \<times> 'r outcome) list \<Rightarrow> 'r when_all \<Rightarrow> bool" where
  "agg_inv specs s =
     (exception (res_member s) = None
      \<and> (case resultBuf (res_member s) of
            None \<Rightarrow> res_status s \<noteq> Some kReady
          | Some v \<Rightarrow>
              res_status s = Some kReady \<and> length v = length specs
              \<and> (\<forall>i < length specs.
                    in_status (v ! i) = kReady
                    \<and> result (v ! i) =
                          result (runToResult (snd (specs ! i)) \<lparr>resultBuf = None, exception = None\<rparr>))))"

text \<open>Two states that differ at most in what the inputs hold as results and in what
  their functors will do.\<close>

definition alike :: "'r when_all \<Rightarrow> 'r when_all \<Rightarrow> bool" where
  "alike s t =
     (length (vec s) = length (vec t)
      \<and> (\<forall>i < length (vec s). in_status (vec s ! i) = in_status (vec t ! i)
                                  \<and> in_chain (vec s ! i) = in_chain (vec t ! i))
      \<and> shared_count s = shared_count t \<and> shared_f s = shared_f t
      \<and> savedOffFn s = savedOffFn t \<and> order s = order t \<and> res_status s = res_status t
      \<and> walker s = walker t \<and> res_started s = res_started t \<and> wa_pc s = wa_pc t
      \<and> crashed s = crashed t \<and> wa_trace s = wa_trace t
      \<and> form s = form t \<and> completed s = completed t
      \<and> exception (res_member s) = exception (res_member t)
      \<and> (resultBuf (res_member s) = None) = (resultBuf (res_member t) = None))"

text \<open>All inputs are ready, no continuation waits on a chain, and \<^verbatim>\<open>when_all\<close> has returned.\<close>

definition quiet :: "'r when_all \<Rightarrow> bool" where
  "quiet s =
     (wa_pc s = WReturned \<and> (\<forall>i < length (vec s). in_status (vec s ! i) = kReady \<and> in_chain (vec s ! i) = 0))"

definition inputs_of :: "(status \<times> 'r outcome) list \<Rightarrow> 'r input list" where
  "inputs_of specs = map (\<lambda>sp. new_input (fst sp) (snd sp)) specs"

text \<open>
  An example: three inputs, of which the first has not started, the second is ready and
  holds the exception 7 its functor threw, and the third is running. In the schedule,
  \<^verbatim>\<open>then\<close> is called on the first two inputs, the first input completes and its chain
  is taken, \<^verbatim>\<open>then\<close> is called on the third, \<^verbatim>\<open>when_all\<close> returns, a holder of \<^verbatim>\<open>res\<close>
  waits and so runs \<^verbatim>\<open>whenComplete\<close> inline, which passes two inputs and waits for the
  third; when the third completes its continuation sees 1 and calls \<^verbatim>\<open>shared->f\<close>.
\<close>

definition wa_specs :: "(status \<times> nat outcome) list" where
  "wa_specs = [(kNotStarted, Inr 1), (kReady, Inl 7), (kRunning, Inr 3)]"

definition wa_schedule :: "wa_action list" where
  "wa_schedule =
     [Advance, Advance, Advance, Advance, Advance, Advance, Complete 0, Drain 0,
      Advance, Advance, WaitRes, Walk, Walk, Walk, Complete 2, Drain 2, Walk]"

text \<open>
  A second example: two inputs that have not started. \<^verbatim>\<open>when_all\<close> installs both
  continuations and returns; the first input completes, then the second; the chain of
  the second input is taken first, so that the continuation of the first input is the
  last to decrement.
\<close>

definition late_specs :: "(status \<times> nat outcome) list" where
  "late_specs = [(kNotStarted, Inr 1), (kNotStarted, Inr 2)]"

definition late_schedule :: "wa_action list" where
  "late_schedule =
     [Advance, Advance, Advance, Advance, Advance, Advance, Advance,
      Complete 0, Complete 1, Drain 1, Drain 0]"

section \<open>Properties of the handle and of the ready-made core\<close>

lemma system_of_simps:
  "status (system_of c f cs es) = status c"
  "resultBuf (system_of c f cs es) = resultBuf c"
  "exception (system_of c f cs es) = exception c"
  "refCount (system_of c f cs es) = refCount c"
  "thenChain (system_of c f cs es) = thenChain c"
  "taskSetCounter (system_of c f cs es) = taskSetCounter c"
  "allowInline (system_of c f cs es) = allowInline c"
  "threads (system_of c f cs es) = spawn es"
  "trace (system_of c f cs es) = []"
  "counters (system_of c f cs es) = cs"
  "func (system_of c f cs es) = f"
  "destroyed (system_of c f cs es) = False"
  by (simp_all add: system_of_def)

lemma goto_simps:
  "threads (goto t p s) = (threads s)[t := (fst (threads s ! t), p)]"
  "status (goto t p s) = status s"
  "resultBuf (goto t p s) = resultBuf s"
  "exception (goto t p s) = exception s"
  "refCount (goto t p s) = refCount s"
  "thenChain (goto t p s) = thenChain s"
  "taskSetCounter (goto t p s) = taskSetCounter s"
  "allowInline (goto t p s) = allowInline s"
  "trace (goto t p s) = trace s"
  "counters (goto t p s) = counters s"
  "func (goto t p s) = func s"
  "destroyed (goto t p s) = destroyed s"
  by (simp_all add: goto_def)

lemma emit_simps:
  "threads (emit ev s) = threads s"
  "status (emit ev s) = status s"
  "resultBuf (emit ev s) = resultBuf s"
  "exception (emit ev s) = exception s"
  "refCount (emit ev s) = refCount s"
  "thenChain (emit ev s) = thenChain s"
  "taskSetCounter (emit ev s) = taskSetCounter s"
  "allowInline (emit ev s) = allowInline s"
  "trace (emit ev s) = ev # trace s"
  "counters (emit ev s) = counters s"
  "func (emit ev s) = func s"
  "destroyed (emit ev s) = destroyed s"
  by (simp_all add: emit_def)

text \<open>
  C8. \<^verbatim>\<open>createValueFutureImplReady\<close>, the core behind \<^verbatim>\<open>make_ready_future(v)\<close>: the
  core is ready at once, its status is \<^verbatim>\<open>kReady\<close> and its reference count 1, and
  \<^verbatim>\<open>result()\<close> returns \<open>v\<close>. The value is written first and the status set after it:
  the core is \<^verbatim>\<open>setReady\<close> of the core in which \<^verbatim>\<open>setAsResult\<close> has filled the buffer
  while the status was still \<^verbatim>\<open>kNotStarted\<close>. A \<^verbatim>\<open>wait()\<close> on it (the first half of
  \<^verbatim>\<open>get()\<close>) returns at its first step, having run nothing, and \<^verbatim>\<open>result()\<close> is \<open>v\<close>
  after it.
\<close>

theorem createValueFutureImplReady_is_ready:
  "ready (createValueFutureImplReady ai v)
   \<and> result (createValueFutureImplReady ai v) = Inr (Some v)
   \<and> status (createValueFutureImplReady ai v) = kReady
   \<and> refCount (createValueFutureImplReady ai v) = 1
   \<and> createValueFutureImplReady ai v = setReady (setAsResult v (new_FutureImplBase ai))
   \<and> resultBuf (setAsResult v (new_FutureImplBase ai)) = Some v
   \<and> status (setAsResult v (new_FutureImplBase ai)) = kNotStarted
   \<and> pc_of (step (act 0) (system_of (createValueFutureImplReady ai v) None cs [Wait])) 0 = Returned
   \<and> trace (step (act 0) (system_of (createValueFutureImplReady ai v) None cs [Wait])) = []
   \<and> result (step (act 0) (system_of (createValueFutureImplReady ai v) None cs [Wait])) = Inr (Some v)"
  by (simp add: createValueFutureImplReady_def setReady_def setAsResult_def new_FutureImplBase_def
      ready_def result_def step_def act_def system_of_simps spawn_def start_def waitCommon_def
      goto_simps pc_of_def)

theorem createValueFutureImplReady_is_ready_witness:
  "ready (createValueFutureImplReady False (42::nat))
   \<and> result (createValueFutureImplReady False (42::nat)) = Inr (Some 42)
   \<and> refCount (createValueFutureImplReady False (42::nat)) = 1"
  using createValueFutureImplReady_is_ready [of False "42::nat"] by blast

text \<open>
  C10, as amended. Copying from a handle whose \<^verbatim>\<open>impl_\<close> is null leaves the
  destination invalid. The copy constructor, and \<^verbatim>\<open>copy\<close> onto a destination that is
  itself invalid, leave every core as it was. \<^verbatim>\<open>copy\<close> onto a destination that holds a
  core \<open>q\<close> releases that core: its count goes down by one, and the core is deallocated
  when the count was 1; no count goes up. Destroying an invalid handle leaves every
  core as it was.
\<close>

theorem copy_from_null_handle:
  "FutureBase_copy_ctor FutureBase_default st = Some (FutureBase_default, st)
   \<and> FutureBase_copy FutureBase_default FutureBase_default st = Some (FutureBase_default, st)
   \<and> (st q = Some c \<longrightarrow>
        FutureBase_copy (Some q) FutureBase_default st =
          Some (FutureBase_default,
                if refCount c = 1 then st(q := None) else st(q \<mapsto> c\<lparr>refCount := refCount c - 1\<rparr>)))
   \<and> \<not> valid FutureBase_default
   \<and> FutureBase_dtor FutureBase_default st = Some st"
  by (simp add: FutureBase_copy_ctor_def FutureBase_copy_def FutureBase_default_def valid_def
      FutureBase_dtor_def store_decRefCountMaybeDestroy_def decRefCountMaybeDestroy_def)

theorem copy_from_null_handle_witness:
  "FutureBase_copy (Some 0) FutureBase_default [0 \<mapsto> new_FutureImplBase False :: nat FutureImplBase]
     = Some (FutureBase_default, [0 \<mapsto> (new_FutureImplBase False)\<lparr>refCount := 1\<rparr>])
   \<and> FutureBase_copy_ctor FutureBase_default [0 \<mapsto> new_FutureImplBase False :: nat FutureImplBase]
     = Some (FutureBase_default, [0 \<mapsto> new_FutureImplBase False])"
  using copy_from_null_handle [of "[0 \<mapsto> new_FutureImplBase False :: nat FutureImplBase]" 0
      "new_FutureImplBase False"]
  by (simp add: new_FutureImplBase_def)

text \<open>
  The claim as it was stated (no reference count is touched) fails for \<^verbatim>\<open>copy\<close>: a
  destination that holds the core at address 0, with count 2, is assigned the null
  handle, and the count of that core is 1 afterwards.
\<close>

theorem copy_from_null_touches_refcount:
  "FutureBase_copy (Some 0) FutureBase_default [0 \<mapsto> new_FutureImplBase False :: nat FutureImplBase]
     = Some (None, [0 \<mapsto> (new_FutureImplBase False)\<lparr>refCount := 1\<rparr>])
   \<and> refCount (new_FutureImplBase False :: nat FutureImplBase) = 2"
  by (simp add: FutureBase_copy_def FutureBase_default_def store_decRefCountMaybeDestroy_def
      decRefCountMaybeDestroy_def new_FutureImplBase_def)

section \<open>The steps of the system\<close>

lemma goto_zipper:
  assumes "t < length (threads s)" and "threads s ! t = (e, p)"
  shows "goto t p' s = s\<lparr>threads := take t (threads s) @ (e, p') # drop (Suc t) (threads s)\<rparr>"
  using assms by (simp add: goto_def upd_conv_take_nth_drop)

lemma step_cases [case_names idle wait_ready wait_inline wait_block run_lost run_won run_retry run_func notify counter_none counter_sub chain_load chain_done_install chain_done_run chain_take chain_retry head_back head_run release wait_ran wait_lost wake timeout load1_ready load1_pending func_call alloc next_load push push_retry load2_ready load2_pending]:
  assumes idle: "Q s"
    and wait_ready: "\<And>xs ys e. \<lbrakk>who a = length xs; threads s = xs @ (e, WaitCommon) # ys; e = Wait \<or> e = WaitFor; status s = kReady\<rbrakk>
          \<Longrightarrow> Q (s\<lparr>threads := xs @ (e, Returned) # ys\<rparr>)"
    and wait_inline: "\<And>xs ys e. \<lbrakk>who a = length xs; threads s = xs @ (e, WaitCommon) # ys; e = Wait \<or> e = WaitFor \<and> allowInline s; status s \<noteq> kReady\<rbrakk>
          \<Longrightarrow> Q (s\<lparr>threads := xs @ (e, RunLoop (status s)) # ys\<rparr>)"
    and wait_block: "\<And>xs ys. \<lbrakk>who a = length xs; threads s = xs @ (WaitFor, WaitCommon) # ys; \<not> allowInline s; status s \<noteq> kReady\<rbrakk>
          \<Longrightarrow> Q (s\<lparr>threads := xs @ (WaitFor, StatusWait) # ys\<rparr>)"
    and run_lost: "\<And>xs ys e v. \<lbrakk>who a = length xs; threads s = xs @ (e, RunLoop v) # ys; v \<noteq> kNotStarted\<rbrakk>
          \<Longrightarrow> Q (s\<lparr>threads := xs @ (e, RunReturned False) # ys\<rparr>)"
    and run_won: "\<And>xs ys e. \<lbrakk>who a = length xs; threads s = xs @ (e, RunLoop kNotStarted) # ys; status s = kNotStarted\<rbrakk>
          \<Longrightarrow> Q (s\<lparr>status := kRunning, threads := xs @ (e, RunFunc) # ys, trace := Won (length xs) # trace s\<rparr>)"
    and run_retry: "\<And>xs ys e. \<lbrakk>who a = length xs; threads s = xs @ (e, RunLoop kNotStarted) # ys\<rbrakk>
          \<Longrightarrow> Q (s\<lparr>threads := xs @ (e, RunLoop (status s)) # ys\<rparr>)"
    and run_func: "\<And>xs ys e. \<lbrakk>who a = length xs; threads s = xs @ (e, RunFunc) # ys\<rbrakk>
          \<Longrightarrow> Q ((runFunc s)\<lparr>threads := xs @ (e, Notify) # ys, trace := Produced (length xs) # trace s\<rparr>)"
    and notify: "\<And>xs ys e. \<lbrakk>who a = length xs; threads s = xs @ (e, Notify) # ys\<rbrakk>
          \<Longrightarrow> Q (s\<lparr>status := kReady, threads := xs @ (e, CounterSub) # ys, trace := Published (length xs) # trace s\<rparr>)"
    and counter_none: "\<And>xs ys e. \<lbrakk>who a = length xs; threads s = xs @ (e, CounterSub) # ys; taskSetCounter s = None\<rbrakk>
          \<Longrightarrow> Q (s\<lparr>threads := xs @ (e, ChainLoad) # ys\<rparr>)"
    and counter_sub: "\<And>xs ys e c. \<lbrakk>who a = length xs; threads s = xs @ (e, CounterSub) # ys; taskSetCounter s = Some c\<rbrakk>
          \<Longrightarrow> Q (s\<lparr>counters := (counters s)(c := counters s c - 1), threads := xs @ (e, ChainLoad) # ys, trace := Decremented (length xs) # trace s\<rparr>)"
    and chain_load: "\<And>xs ys e. \<lbrakk>who a = length xs; threads s = xs @ (e, ChainLoad) # ys\<rbrakk>
          \<Longrightarrow> Q (s\<lparr>threads := xs @ (e, ChainLoop (head_of (thenChain s))) # ys\<rparr>)"
    and chain_done_install: "\<And>xs ys f. \<lbrakk>who a = length xs; threads s = xs @ (Install f, ChainLoop None) # ys\<rbrakk>
          \<Longrightarrow> Q (s\<lparr>threads := xs @ (Install f, Returned) # ys\<rparr>)"
    and chain_done_run: "\<And>xs ys e. \<lbrakk>who a = length xs; threads s = xs @ (e, ChainLoop None) # ys; e = Run \<or> e = Wait \<or> e = WaitFor\<rbrakk>
          \<Longrightarrow> Q (s\<lparr>threads := xs @ (e, RunReturned True) # ys\<rparr>)"
    and chain_take: "\<And>xs ys e x f ns. \<lbrakk>who a = length xs; threads s = xs @ (e, ChainLoop (Some x)) # ys; thenChain s = (x, f) # ns\<rbrakk>
          \<Longrightarrow> Q (s\<lparr>thenChain := [], threads := xs @ (e, HeadRun x ((x, f) # ns)) # ys\<rparr>)"
    and chain_retry: "\<And>xs ys e x. \<lbrakk>who a = length xs; threads s = xs @ (e, ChainLoop (Some x)) # ys\<rbrakk>
          \<Longrightarrow> Q (s\<lparr>threads := xs @ (e, ChainLoop (head_of (thenChain s))) # ys\<rparr>)"
    and head_back: "\<And>xs ys e x. \<lbrakk>who a = length xs; threads s = xs @ (e, HeadRun x []) # ys\<rbrakk>
          \<Longrightarrow> Q (s\<lparr>threads := xs @ (e, ChainLoop (Some x)) # ys\<rparr>)"
    and head_run: "\<And>xs ys e x n ns. \<lbrakk>who a = length xs; threads s = xs @ (e, HeadRun x (n # ns)) # ys\<rbrakk>
          \<Longrightarrow> Q (s\<lparr>threads := xs @ (e, HeadRun x ns) # ys, trace := Invoked (length xs) (snd n) # trace s\<rparr>)"
    and release: "\<And>xs ys b. \<lbrakk>who a = length xs; threads s = xs @ (Run, RunReturned b) # ys\<rbrakk>
          \<Longrightarrow> Q (s\<lparr>refCount := refCount s - 1, destroyed := destroyed s \<or> refCount s = 1, threads := xs @ (Run, Returned) # ys, trace := Released (length xs) (refCount s = 1) # trace s\<rparr>)"
    and wait_ran: "\<And>xs ys e. \<lbrakk>who a = length xs; threads s = xs @ (e, RunReturned True) # ys; e = Wait \<or> e = WaitFor\<rbrakk>
          \<Longrightarrow> Q (s\<lparr>threads := xs @ (e, Returned) # ys\<rparr>)"
    and wait_lost: "\<And>xs ys e. \<lbrakk>who a = length xs; threads s = xs @ (e, RunReturned False) # ys; e = Wait \<or> e = WaitFor\<rbrakk>
          \<Longrightarrow> Q (s\<lparr>threads := xs @ (e, StatusWait) # ys\<rparr>)"
    and wake: "\<And>xs ys e. \<lbrakk>who a = length xs; threads s = xs @ (e, StatusWait) # ys; status s = kReady\<rbrakk>
          \<Longrightarrow> Q (s\<lparr>threads := xs @ (e, Returned) # ys\<rparr>)"
    and timeout: "\<And>xs ys. \<lbrakk>who a = length xs; threads s = xs @ (WaitFor, StatusWait) # ys; status s \<noteq> kReady\<rbrakk>
          \<Longrightarrow> Q (s\<lparr>threads := xs @ (WaitFor, TimedOut) # ys\<rparr>)"
    and load1_ready: "\<And>xs ys e. \<lbrakk>who a = length xs; threads s = xs @ (e, StatusLoad1) # ys; status s = kReady\<rbrakk>
          \<Longrightarrow> Q (s\<lparr>threads := xs @ (e, FuncCall) # ys\<rparr>)"
    and load1_pending: "\<And>xs ys e. \<lbrakk>who a = length xs; threads s = xs @ (e, StatusLoad1) # ys; status s \<noteq> kReady\<rbrakk>
          \<Longrightarrow> Q (s\<lparr>threads := xs @ (e, BufferAlloc) # ys\<rparr>)"
    and func_call: "\<And>xs ys f. \<lbrakk>who a = length xs; threads s = xs @ (Install f, FuncCall) # ys\<rbrakk>
          \<Longrightarrow> Q (s\<lparr>threads := xs @ (Install f, Returned) # ys, trace := Invoked (length xs) f # trace s\<rparr>)"
    and alloc: "\<And>xs ys e. \<lbrakk>who a = length xs; threads s = xs @ (e, BufferAlloc) # ys\<rbrakk>
          \<Longrightarrow> Q (s\<lparr>threads := xs @ (e, NextLoad (fresh a)) # ys\<rparr>)"
    and next_load: "\<And>xs ys e b. \<lbrakk>who a = length xs; threads s = xs @ (e, NextLoad b) # ys\<rbrakk>
          \<Longrightarrow> Q (s\<lparr>threads := xs @ (e, HeadPush b (head_of (thenChain s))) # ys\<rparr>)"
    and push: "\<And>xs ys f b nx. \<lbrakk>who a = length xs; threads s = xs @ (Install f, HeadPush b nx) # ys; head_of (thenChain s) = nx\<rbrakk>
          \<Longrightarrow> Q (s\<lparr>thenChain := (b, f) # thenChain s, threads := xs @ (Install f, StatusLoad2) # ys, trace := Pushed (length xs) b f # trace s\<rparr>)"
    and push_retry: "\<And>xs ys f b nx. \<lbrakk>who a = length xs; threads s = xs @ (Install f, HeadPush b nx) # ys\<rbrakk>
          \<Longrightarrow> Q (s\<lparr>threads := xs @ (Install f, HeadPush b (head_of (thenChain s))) # ys\<rparr>)"
    and load2_ready: "\<And>xs ys e. \<lbrakk>who a = length xs; threads s = xs @ (e, StatusLoad2) # ys; status s = kReady\<rbrakk>
          \<Longrightarrow> Q (s\<lparr>threads := xs @ (e, ChainLoad) # ys\<rparr>)"
    and load2_pending: "\<And>xs ys e. \<lbrakk>who a = length xs; threads s = xs @ (e, StatusLoad2) # ys; status s \<noteq> kReady\<rbrakk>
          \<Longrightarrow> Q (s\<lparr>threads := xs @ (e, Returned) # ys\<rparr>)"
  shows "Q (step a s)"
proof (cases "who a < length (threads s)")
  case False
  then show ?thesis using idle by (simp add: step_def)
next
  case True
  obtain e p where th: "threads s ! who a = (e, p)" by (cases "threads s ! who a")
  define xs where "xs = take (who a) (threads s)"
  define ys where "ys = drop (Suc (who a)) (threads s)"
  have len: "who a = length xs" using True by (simp add: xs_def)
  have zip: "threads s = xs @ (e, p) # ys"
    using id_take_nth_drop [OF True] th by (simp add: xs_def ys_def)
  have go: "goto (length xs) p' s' = s'\<lparr>threads := xs @ (e, p') # ys\<rparr>"
    if "threads s' = xs @ (e, p) # ys" for p' and s' :: "'a system"
    using that by (simp add: goto_def)
  show ?thesis
  proof (cases p)
    case WaitCommon
    then show ?thesis
      using True th idle wait_ready [OF len, of e ys] wait_inline [OF len, of e ys] wait_block [OF len, of ys] zip
      by (cases e) (auto simp: step_def len waitCommon_def go)
  next
    case (RunLoop v)
    then show ?thesis
      using True th run_lost [OF len, of e v ys] run_won [OF len, of e ys] run_retry [OF len, of e ys] zip
      by (auto simp: step_def len run_loop_def go emit_def)
  next
    case RunFunc
    then show ?thesis using True th run_func [OF len, of e ys] zip
      by (simp add: step_def len run_func_def go emit_def runFunc_def runToResult_def split: option.splits sum.splits)
  next
    case Notify
    then show ?thesis using True th notify [OF len, of e ys] zip
      by (simp add: step_def len notify_def go emit_def)
  next
    case CounterSub
    then show ?thesis
      using True th counter_none [OF len, of e ys] counter_sub [OF len, of e ys] zip
      by (cases "taskSetCounter s") (simp_all add: step_def len counter_sub_def go emit_def)
  next
    case ChainLoad
    then show ?thesis using True th chain_load [OF len, of e ys] zip
      by (simp add: step_def len chain_load_def go)
  next
    case (ChainLoop h)
    show ?thesis
    proof (cases h)
      case None
      then show ?thesis
        using ChainLoop True th chain_done_install [OF len, of _ ys] chain_done_run [OF len, of e ys] zip
        by (cases e) (simp_all add: step_def len chain_loop_def go after_chain_def)
    next
      case (Some x)
      show ?thesis
      proof (cases "head_of (thenChain s) = Some x \<and> \<not> fails a")
        case False
        then show ?thesis using Some ChainLoop True th chain_retry [OF len, of e x ys] zip
          by (auto simp: step_def len chain_loop_def go)
      next
        case yes: True
        then obtain f ns where ch: "thenChain s = (x, f) # ns"
          by (cases "thenChain s") (auto simp: head_of_def)
        show ?thesis using yes Some ChainLoop True th chain_take [OF len, of e x ys f ns] zip ch
          by (simp add: step_def len chain_loop_def go)
      qed
    qed
  next
    case (HeadRun x ns)
    then show ?thesis
      using True th head_back [OF len, of e x ys] head_run [OF len, of e x _ _ ys] zip
      by (cases ns) (auto simp: step_def len head_run_def go emit_def)
  next
    case (RunReturned b)
    then show ?thesis
      using True th idle release [OF len, of b ys] wait_ran [OF len, of e ys] wait_lost [OF len, of e ys] zip
      by (cases e; cases b) (auto simp: step_def len run_returned_def decRefCountMaybeDestroy_def go emit_def)
  next
    case StatusWait
    then show ?thesis
      using True th idle wake [OF len, of e ys] timeout [OF len, of ys] zip
      by (auto simp: step_def len status_wait_def go)
  next
    case StatusLoad1
    then show ?thesis
      using True th load1_ready [OF len, of e ys] load1_pending [OF len, of e ys] zip
      by (auto simp: step_def len status_load1_def go)
  next
    case FuncCall
    then show ?thesis
      using True th idle func_call [OF len, of _ ys] zip
      by (cases e) (auto simp: step_def len func_call_def go emit_def)
  next
    case BufferAlloc
    then show ?thesis using True th alloc [OF len, of e ys] zip
      by (simp add: step_def len buffer_alloc_def go)
  next
    case (NextLoad b)
    then show ?thesis using True th next_load [OF len, of e b ys] zip
      by (simp add: step_def len next_load_def go)
  next
    case (HeadPush b nx)
    then show ?thesis
      using True th idle push [OF len, of _ b nx ys] push_retry [OF len, of _ b nx ys] zip
      by (cases e) (auto simp: step_def len head_push_def go emit_def)
  next
    case StatusLoad2
    then show ?thesis
      using True th load2_ready [OF len, of e ys] load2_pending [OF len, of e ys] zip
      by (auto simp: step_def len status_load2_def go)
  next
    case Returned
    then show ?thesis using True th idle by (simp add: step_def len)
  next
    case TimedOut
    then show ?thesis using True th idle by (simp add: step_def len)
  qed
qed

section \<open>The invariants are kept by every step\<close>

lemma cnt_simps [simp]:
  "cnt p [] = 0"
  "cnt p (xs @ ys) = cnt p xs + cnt p ys"
  "cnt p ((e, q) # ys) = (if q = p then 1 else 0) + cnt p ys"
  by (simp_all add: cnt_def)

lemma runFunc_simps:
  "threads (runFunc s) = threads s"
  "status (runFunc s) = status s"
  "refCount (runFunc s) = refCount s"
  "thenChain (runFunc s) = thenChain s"
  "taskSetCounter (runFunc s) = taskSetCounter s"
  "allowInline (runFunc s) = allowInline s"
  "trace (runFunc s) = trace s"
  "counters (runFunc s) = counters s"
  "func (runFunc s) = func s"
  "destroyed (runFunc s) = destroyed s"
  by (simp_all add: runFunc_def runToResult_def split: option.splits sum.splits)

lemma inv_run_step: "inv_run s \<Longrightarrow> inv_run (step a s)"
proof (induction rule: step_cases [of _ s a])
  case idle then show ?case .
qed (auto simp add: inv_run_def at_def runFunc_simps split: if_splits)

lemma inv_ready_step: "inv_ready s \<Longrightarrow> inv_ready (step a s)"
proof (induction rule: step_cases [of _ s a])
  case idle then show ?case .
qed (auto simp add: inv_ready_def needs_ready_def runFunc_simps)

lemma inv_wf_step: "inv_wf s \<Longrightarrow> inv_wf (step a s)"
proof (induction rule: step_cases [of _ s a])
  case idle then show ?case .
qed (auto simp add: inv_wf_def wf_thread_def installer_pc_def runFunc_simps split: entry.splits)

lemma inv_chain_step: "inv_wf s \<Longrightarrow> inv_chain s \<Longrightarrow> inv_chain (step a s)"
proof (induction rule: step_cases [of _ s a])
  case idle then show ?case by simp
qed (auto simp add: inv_chain_def inv_wf_def wf_thread_def installer_pc_def held_def handed_def
    past_install_def runFunc_simps ac_simps split: entry.splits)

lemma head_of_eq_None [simp]: "(head_of ns = None) = (ns = [])"
  by (cases ns) (simp_all add: head_of_def)

lemma inv_cover_step: "inv_cover s \<Longrightarrow> inv_cover (step a s)"
proof (induction rule: step_cases [of _ s a])
  case idle then show ?case .
qed (auto simp add: inv_cover_def covering_def runFunc_simps)

lemma ids_append [simp]: "ids P n (xs @ ys) = ids P n xs @ ids P (n + length xs) ys"
  by (induction xs arbitrary: n) simp_all

lemma ready_published:
  assumes "inv_run s" and "status s = kReady"
  shows "publishers (trace s) \<noteq> []"
proof -
  from assms have "length (publishers (trace s)) = 1"
    by (auto simp: inv_run_def split: if_splits)
  then show ?thesis by auto
qed

lemma inv_who_step: "inv_run s \<Longrightarrow> inv_ready s \<Longrightarrow> inv_who s \<Longrightarrow> inv_who (step a s)"
proof (induction rule: step_cases [of _ s a])
  case idle then show ?case by simp
next
  case (head_run xs ys e x n ns)
  then show ?case
    using ready_published [of s] by (auto simp add: inv_who_def inv_ready_def needs_ready_def)
next
  case (func_call xs ys f)
  then show ?case
    using ready_published [of s] by (auto simp add: inv_who_def inv_ready_def needs_ready_def)
qed (auto simp add: inv_who_def runFunc_simps)

lemma inv_slot_step: "inv_run s \<Longrightarrow> inv_slot s \<Longrightarrow> inv_slot (step a s)"
proof (induction rule: step_cases [of _ s a])
  case idle then show ?case by simp
next
  case (run_func xs ys e)
  then have "producers (trace s) = []"
    by (auto simp: inv_run_def at_def split: if_splits)
  then show ?case using run_func
    by (auto simp add: inv_slot_def runFunc_def runToResult_def split: option.splits sum.splits)
qed (auto simp add: inv_slot_def)

lemma inv_counter_step: "inv_counter cs s \<Longrightarrow> inv_counter cs (step a s)"
proof (induction rule: step_cases [of _ s a])
  case idle then show ?case .
qed (auto simp add: inv_counter_def runFunc_simps split: option.splits)

lemma step_frame:
  "taskSetCounter (step a s) = taskSetCounter s"
  "func (step a s) = func s"
  "allowInline (step a s) = allowInline s"
  "map fst (threads (step a s)) = map fst (threads s)"
  by (induction rule: step_cases [of _ s a]; simp add: runFunc_simps)+

lemma inv_step: "inv cs s \<Longrightarrow> inv cs (step a s)"
  by (simp add: inv_def inv_run_step inv_ready_step inv_wf_step inv_chain_step inv_cover_step
      inv_who_step inv_slot_step inv_counter_step)

lemma exec_invariant:
  assumes "P s" and "\<And>a s. P s \<Longrightarrow> P (step a s)"
  shows "P (exec sch s)"
  using assms(1) by (induction sch arbitrary: s) (simp_all add: assms(2))

lemma exec_append: "exec (as @ bs) s = exec bs (exec as s)"
  by (induction as arbitrary: s) simp_all

lemma createFutureImpl_simps:
  "status (createFutureImpl ai allow tsc) = kNotStarted"
  "resultBuf (createFutureImpl ai allow tsc) = None"
  "exception (createFutureImpl ai allow tsc) = None"
  "refCount (createFutureImpl ai allow tsc) = 2"
  "thenChain (createFutureImpl ai allow tsc) = []"
  "taskSetCounter (createFutureImpl ai allow tsc) = tsc"
  "allowInline (createFutureImpl ai allow tsc) = allow"
  by (simp_all add: createFutureImpl_def setTaskSetCounter_def setAllowInline_def
      new_FutureImplBase_def)

lemma spawn_simps:
  "cnt RunFunc (spawn es) = 0"
  "cnt Notify (spawn es) = 0"
  "cnt CounterSub (spawn es) = 0"
  "th \<in> set (spawn es) \<Longrightarrow> snd th = start (fst th)"
  "concat (map held (spawn es)) = []"
  "concat (map handed (spawn es)) = []"
  "ids (\<lambda>p. p = RunFunc \<or> p = Notify \<or> p = CounterSub) n (spawn es) = []"
  "ids (\<lambda>p. p = Notify \<or> p = CounterSub) n (spawn es) = []"
  "ids (\<lambda>p. p = CounterSub) n (spawn es) = []"
  "map fst (spawn es) = es"
        apply (induction es; simp add: spawn_def cnt_def start_def split: entry.splits)
       apply (induction es; simp add: spawn_def cnt_def start_def split: entry.splits)
      apply (induction es; simp add: spawn_def cnt_def start_def split: entry.splits)
     apply (auto simp: spawn_def)[1]
    apply (induction es; simp add: spawn_def held_def start_def split: entry.splits)
    apply (induction es; simp add: spawn_def handed_def start_def past_install_def split: entry.splits)
    apply (induction es arbitrary: n; simp add: spawn_def start_def split: entry.splits)
   apply (induction es arbitrary: n; simp add: spawn_def start_def split: entry.splits)
  apply (induction es arbitrary: n; simp add: spawn_def start_def split: entry.splits)
  apply (simp add: spawn_def comp_def)
  done

lemma inv_init: "inv cs (system_of (createFutureImpl ai allow tsc) fo cs es)"
  unfolding inv_def
  apply (intro conjI)
         apply (simp add: inv_run_def at_def system_of_simps createFutureImpl_simps spawn_simps)
        apply (auto simp add: inv_ready_def system_of_simps needs_ready_def start_def
      dest!: spawn_simps(4) split: entry.splits)[1]
       apply (auto simp add: inv_wf_def wf_thread_def installer_pc_def system_of_simps start_def
      dest!: spawn_simps(4) split: entry.splits)[1]
      apply (simp add: inv_chain_def system_of_simps createFutureImpl_simps spawn_simps)
     apply (simp add: inv_cover_def system_of_simps createFutureImpl_simps)
    apply (simp add: inv_who_def system_of_simps spawn_simps)
   apply (simp add: inv_slot_def system_of_simps createFutureImpl_simps)
  apply (simp add: inv_counter_def system_of_simps createFutureImpl_simps split: option.splits)
  done

lemma inv_reachable: "inv cs (exec sch (system_of (createFutureImpl ai allow tsc) fo cs es))"
  by (rule exec_invariant [OF inv_init inv_step])

section \<open>Consequences of the invariants\<close>

lemma winners_set: "(t \<in> set (winners tr)) = (Won t \<in> set tr)"
  by (induction tr rule: winners.induct) auto

lemma producers_set: "(t \<in> set (producers tr)) = (Produced t \<in> set tr)"
  by (induction tr rule: producers.induct) auto


lemma decrementers_set: "(t \<in> set (decrementers tr)) = (Decremented t \<in> set tr)"
  by (induction tr rule: decrementers.induct) auto


lemma ordered_suffix: "ordered (pre @ tr) \<Longrightarrow> ordered tr"
  by (induction pre rule: ordered.induct) auto

lemma ordered_Produced:
  assumes "ordered tr" and "tr = pre @ Produced t # post"
  shows "Won t \<in> set post"
  using ordered_suffix [of pre "Produced t # post"] assms by (simp add: winners_set)

lemma ordered_Published:
  assumes "ordered tr" and "tr = pre @ Published t # post"
  shows "Produced t \<in> set post"
  using ordered_suffix [of pre "Published t # post"] assms by (simp add: producers_set)



lemma reachable_inv: "inv cs (exec sch (future_system ai allow tsc f cs es))"
  unfolding future_system_def by (rule inv_reachable)

lemma nth_zipper:
  "(xs @ y # ys) ! t =
     (if t < length xs then xs ! t else if t = length xs then y else ys ! (t - Suc (length xs)))"
  by (simp add: nth_append nth_Cons')

lemma step_other:
  assumes "who a \<noteq> t"
  shows "threads (step a s) ! t = threads s ! t"
    and "events_of t (trace (step a s)) = events_of t (trace s)"
  using assms
  by (induction rule: step_cases [of _ s a]; simp add: events_of_def nth_zipper runFunc_simps)+

lemma step_length: "length (threads (step a s)) = length (threads s)"
  by (induction rule: step_cases [of _ s a]; simp add: runFunc_simps)

lemma status_stable:
  "status s = kReady \<Longrightarrow> status (step a s) = kReady"
  "status s \<noteq> kNotStarted \<Longrightarrow> status (step a s) \<noteq> kNotStarted"
  by (induction rule: step_cases [of _ s a]; simp add: runFunc_simps)+

lemma noop_run_step: "noop_run t tr0 s \<Longrightarrow> noop_run t tr0 (step a s)"
proof (cases "who a = t")
  case False
  assume "noop_run t tr0 s"
  then show ?thesis
    using step_other [OF False, of s] step_length [of a s] status_stable(2) [of s a]
    by (simp add: noop_run_def)
next
  case True
  assume h: "noop_run t tr0 s"
  then obtain p where th: "threads s ! t = (Run, p)" and lt: "t < length (threads s)"
    and ns: "status s \<noteq> kNotStarted"
    by (cases "threads s ! t") (auto simp: noop_run_def)
  show ?thesis
  proof (cases p)
    case (RunLoop v)
    then show ?thesis using h th lt ns True
      by (auto simp: noop_run_def run_stage_def step_def run_loop_def goto_simps emit_simps events_of_def)
  next
    case (RunReturned b)
    then show ?thesis using h th lt ns True
      by (auto simp: noop_run_def run_stage_def step_def run_returned_def decRefCountMaybeDestroy_def
          goto_simps emit_simps events_of_def)
  next
    case Returned
    then show ?thesis using h th lt ns True by (auto simp: noop_run_def step_def)
  qed (use h th in \<open>auto simp: noop_run_def run_stage_def\<close>)
qed

lemma noop_run_exec: "noop_run t tr0 s \<Longrightarrow> noop_run t tr0 (exec sch s)"
  by (rule exec_invariant) (simp_all add: noop_run_step)

lemmas model_defs =
  step_def waitCommon_def run_loop_def run_func_def notify_def counter_sub_def chain_load_def
  chain_loop_def head_run_def run_returned_def status_wait_def status_load1_def func_call_def
  buffer_alloc_def next_load_def head_push_def status_load2_def after_chain_def goto_def emit_def
  runFunc_def runToResult_def decRefCountMaybeDestroy_def head_of_def act_def
  system_of_def future_system_def createFutureImpl_def setTaskSetCounter_def setAllowInline_def
  new_FutureImplBase_def spawn_def start_def

lemma direct_call_step: "direct_call t f tr0 s \<Longrightarrow> direct_call t f tr0 (step a s)"
proof (cases "who a = t")
  case False
  assume "direct_call t f tr0 s"
  then show ?thesis
    using step_other [OF False, of s] step_length [of a s] status_stable(1) [of s a]
    by (simp add: direct_call_def)
next
  case True
  assume h: "direct_call t f tr0 s"
  then obtain p where th: "threads s ! t = (Install f, p)" and lt: "t < length (threads s)"
    and rd: "status s = kReady" and st: "direct_stage p"
    by (cases "threads s ! t") (auto simp: direct_call_def)
  from st consider "p = StatusLoad1" | "p = FuncCall" | "p = Returned"
    by (auto simp: direct_stage_def)
  then show ?thesis
  proof cases
    case 1
    then show ?thesis using h th lt rd True
      by (auto simp: direct_call_def direct_stage_def step_def status_load1_def goto_simps)
  next
    case 2
    then show ?thesis using h th lt rd True
      by (auto simp: direct_call_def direct_stage_def step_def func_call_def goto_simps
          emit_simps events_of_def)
  next
    case 3
    then show ?thesis using h th lt rd True by (auto simp: direct_call_def step_def)
  qed
qed

lemma direct_call_exec: "direct_call t f tr0 s \<Longrightarrow> direct_call t f tr0 (exec sch s)"
  by (rule exec_invariant) (simp_all add: direct_call_step)




lemma exec_frame:
  "taskSetCounter (exec sch s) = taskSetCounter s"
  "func (exec sch s) = func s"
  "allowInline (exec sch s) = allowInline s"
  by (induction sch arbitrary: s; simp add: step_frame)+





section \<open>The claims about the core\<close>

subsection \<open>Runs of the example system\<close>

text \<open>
  The waiter runs the functor inline and stores \<^verbatim>\<open>kReady\<close> (\<open>inline_run\<close>). The scheduled
  run goes through alone (\<open>plain_run\<close>). In \<open>race_run\<close> the first installer has read an
  empty chain when the scheduled run completes and finds the chain empty; the installer
  then pushes its node, sees \<^verbatim>\<open>kReady\<close> at its second load and runs the chain itself; the
  second installer and the waiter arrive after that.
\<close>

lemma inline_run:
  "exec (map act [3, 3, 3, 3]) example_system =
     example_system\<lparr>resultBuf := Some 5, status := kReady,
       threads := [(Run, RunLoop kNotStarted), (Install functor1, StatusLoad1),
                   (Install functor2, StatusLoad1), (Wait, CounterSub)],
       trace := [Published 3, Produced 3, Won 3]\<rparr>"
  by (simp add: example_system_def model_defs)

lemma plain_run:
  "exec (map act [0, 0, 0, 0, 0, 0, 0]) example_system =
     example_system\<lparr>resultBuf := Some 5, status := kReady, refCount := 1,
       counters := (\<lambda>c. 1)(0 := 0),
       threads := [(Run, Returned), (Install functor1, StatusLoad1),
                   (Install functor2, StatusLoad1), (Wait, WaitCommon)],
       trace := [Released 0 False, Decremented 0, Published 0, Produced 0, Won 0]\<rparr>"
  by (simp add: example_system_def model_defs)


lemma failing_run:
  "exec (map act [0, 0, 0, 0, 0, 0, 0]) failing_system =
     failing_system\<lparr>exception := Some 3, status := kReady, refCount := 1,
       threads := [(Run, Returned), (Wait, WaitCommon)],
       trace := [Released 0 False, Published 0, Produced 0, Won 0]\<rparr>"
  by (simp add: failing_system_def model_defs)

lemma lost_run:
  "exec (map act [1, 0]) failing_system =
     failing_system\<lparr>status := kRunning,
       threads := [(Run, RunFunc), (Wait, RunLoop kNotStarted)],
       trace := [Won 0]\<rparr>"
  by (simp add: failing_system_def model_defs)

lemma example_fields:
  "status example_system = kNotStarted" "refCount example_system = 2"
  "threads example_system = [(Run, RunLoop kNotStarted), (Install functor1, StatusLoad1),
                   (Install functor2, StatusLoad1), (Wait, WaitCommon)]"
  "trace example_system = []" "thenChain example_system = []" "destroyed example_system = False"
  "resultBuf failing_system = None"
  by (simp_all add: example_system_def failing_system_def model_defs)

subsection \<open>The functor runs at most once\<close>

text \<open>
  C1. In every state a core created by \<^verbatim>\<open>createFutureImpl\<close> can reach, under any
  schedule of any threads, \<^verbatim>\<open>runFunc()\<close> was called at most once and the exchange
  \<^verbatim>\<open>kNotStarted\<close> to \<^verbatim>\<open>kRunning\<close> succeeded at most once; whenever thread \<open>t\<close> called
  \<^verbatim>\<open>runFunc()\<close>, the same thread had won that exchange before. A call of \<^verbatim>\<open>run()\<close> that
  starts when the status is no longer \<^verbatim>\<open>kNotStarted\<close> does nothing but release one
  reference: run by itself its three steps change the reference count (and \<^verbatim>\<open>destroyed\<close>
  when the count was 1) and nothing else of the core, and under any schedule the whole
  of what the thread does is that one release (\<open>noop_run\<close>).
\<close>

theorem producer_runs_at_most_once:
  "length (producers (trace (exec sch (future_system ai allow tsc f cs es)))) \<le> 1
   \<and> length (winners (trace (exec sch (future_system ai allow tsc f cs es)))) \<le> 1
   \<and> (\<forall>pre t post. trace (exec sch (future_system ai allow tsc f cs es)) = pre @ Produced t # post
          \<longrightarrow> Won t \<in> set post)
   \<and> (\<forall>s t a1 a2 a3.
          t < length (threads s) \<and> threads s ! t = (Run, start Run) \<and> status s \<noteq> kNotStarted
          \<and> who a1 = t \<and> who a2 = t \<and> who a3 = t
          \<longrightarrow> exec [a1, a2, a3] s =
                s\<lparr>refCount := refCount s - 1, destroyed := destroyed s \<or> refCount s = 1,
                  threads := (threads s)[t := (Run, Returned)],
                  trace := Released t (refCount s = 1) # trace s\<rparr>
              \<and> (\<forall>sch'. noop_run t (events_of t (trace s)) (exec sch' (s :: 'r system))))"
proof -
  let ?s = "exec sch (future_system ai allow tsc f cs es)"
  have i: "inv cs ?s" by (rule reachable_inv)
  then have r: "inv_run ?s" and w: "inv_who ?s" by (simp_all add: inv_def)
  have a: "length (producers (trace ?s)) \<le> 1" "length (winners (trace ?s)) \<le> 1"
    using r by (auto simp: inv_run_def split: if_splits)
  have b: "\<forall>pre t post. trace ?s = pre @ Produced t # post \<longrightarrow> Won t \<in> set post"
    using w ordered_Produced by (auto simp: inv_who_def)
  have c: "exec [a1, a2, a3] s =
                s\<lparr>refCount := refCount s - 1, destroyed := destroyed s \<or> refCount s = 1,
                  threads := (threads s)[t := (Run, Returned)],
                  trace := Released t (refCount s = 1) # trace s\<rparr>"
    if "t < length (threads s)" "threads s ! t = (Run, start Run)" "status s \<noteq> kNotStarted"
      "who a1 = t" "who a2 = t" "who a3 = t" for s :: "'r system" and t a1 a2 a3
    using that
    by (simp add: step_def run_loop_def run_returned_def decRefCountMaybeDestroy_def goto_def
        emit_def start_def)
  have d: "noop_run t (events_of t (trace s)) (exec sch' s)"
    if "t < length (threads s)" "threads s ! t = (Run, start Run)" "status s \<noteq> kNotStarted"
    for s :: "'r system" and t sch'
    by (rule noop_run_exec) (use that in \<open>simp add: noop_run_def run_stage_def start_def\<close>)
  show ?thesis using a b c d by blast
qed

theorem producer_runs_at_most_once_witness:
  "trace (exec (map act [3, 3, 3, 3]) example_system) = [Published 3] @ Produced 3 # [Won 3]
   \<and> Won 3 \<in> set [Won 3]
   \<and> length (producers (trace (exec (map act [3, 3, 3, 3]) example_system))) \<le> 1
   \<and> 0 < length (threads (exec (map act [3, 3, 3, 3]) example_system))
   \<and> threads (exec (map act [3, 3, 3, 3]) example_system) ! 0 = (Run, start Run)
   \<and> status (exec (map act [3, 3, 3, 3]) example_system) \<noteq> kNotStarted
   \<and> exec [act 0, act 0, act 0] (exec (map act [3, 3, 3, 3]) example_system) =
       (exec (map act [3, 3, 3, 3]) example_system)
         \<lparr>refCount := 1, destroyed := False,
          threads := [(Run, Returned), (Install functor1, StatusLoad1),
                      (Install functor2, StatusLoad1), (Wait, CounterSub)],
          trace := [Released 0 False, Published 3, Produced 3, Won 3]\<rparr>"
proof -
  let ?s = "exec (map act [3, 3, 3, 3]) example_system"
  have h: "0 < length (threads ?s) \<and> threads ?s ! 0 = (Run, start Run) \<and> status ?s \<noteq> kNotStarted
           \<and> who (act 0) = 0"
    unfolding inline_run by (simp add: start_def act_def)
  have tr: "trace ?s = [Published 3] @ Produced 3 # [Won 3]"
    unfolding inline_run by simp
  note T = producer_runs_at_most_once [where sch = "map act [3, 3, 3, 3]" and ai = False
      and allow = False and tsc = "Some 0" and f = "Inr (5::nat)" and cs = "\<lambda>c. 1"
      and es = "[Run, Install functor1, Install functor2, Wait]", folded example_system_def]
  from T have "length (producers (trace ?s)) \<le> 1" by blast
  moreover from T tr have "Won 3 \<in> set [Won 3]" by blast
  moreover from T h have "exec [act 0, act 0, act 0] ?s =
       ?s\<lparr>refCount := refCount ?s - 1, destroyed := destroyed ?s \<or> refCount ?s = 1,
          threads := (threads ?s)[0 := (Run, Returned)],
          trace := Released 0 (refCount ?s = 1) # trace ?s\<rparr>"
    by blast
  ultimately show ?thesis
    unfolding inline_run by (simp add: example_fields start_def)
qed

subsection \<open>\<^verbatim>\<open>wait()\<close>\<close>

text \<open>
  C2, as amended. \<^verbatim>\<open>wait()\<close> on a core that is \<^verbatim>\<open>kReady\<close> returns at its first step and
  changes nothing. Otherwise it enters \<^verbatim>\<open>run(int)\<close> with the status it loaded, whatever
  \<^verbatim>\<open>allowInline_\<close> is: on \<^verbatim>\<open>kNotStarted\<close> its exchange (when it does not fail) makes
  it the thread that calls the functor; on \<^verbatim>\<open>kRunning\<close>, and also when it loaded
  \<^verbatim>\<open>kNotStarted\<close> but another thread has won the exchange since (an exchange that
  fails with the status still \<^verbatim>\<open>kNotStarted\<close> is tried again), the call returns false
  without calling the functor and the thread blocks in \<^verbatim>\<open>status_.wait(kReady)\<close>, which
  it leaves only when the status is \<^verbatim>\<open>kReady\<close>. The thread that won calls the functor
  in its next step, and returns from \<^verbatim>\<open>wait()\<close> when \<^verbatim>\<open>run(int)\<close> has returned true. \<^verbatim>\<open>allowInline_\<close> decides in the timed waits alone: there a thread that
  finds the core not ready goes on to \<^verbatim>\<open>run(int)\<close> when it is true and blocks when it
  is false.
\<close>

theorem wait_runs_inline_or_blocks:
  assumes "t < length (threads s)" and "who a1 = t" and "who a2 = t" and "who a3 = t"
  shows "(threads s ! t = (Wait, start Wait) \<and> status s = kReady \<longrightarrow>
            step a1 s = goto t Returned s)
       \<and> (threads s ! t = (Wait, start Wait) \<and> status s = kNotStarted \<and> \<not> fails a2 \<longrightarrow>
            exec [a1, a2] s = emit (Won t) (goto t RunFunc (s\<lparr>status := kRunning\<rparr>)))
       \<and> (threads s ! t = (Wait, start Wait) \<and> status s = kRunning \<longrightarrow>
            exec [a1, a2, a3] s = goto t StatusWait s)
       \<and> (threads s ! t = (Wait, RunLoop kNotStarted) \<and> status s \<noteq> kNotStarted \<longrightarrow>
            step a1 s = goto t (RunLoop (status s)) s
            \<and> exec [a1, a2, a3] s = goto t StatusWait s
            \<and> trace (exec [a1, a2, a3] s) = trace s
            \<and> status (exec [a1, a2, a3] s) = status s)
       \<and> (threads s ! t = (Wait, RunLoop kNotStarted) \<and> status s = kNotStarted \<and> fails a1 \<longrightarrow>
            step a1 s = goto t (RunLoop kNotStarted) s)
       \<and> (threads s ! t = (Wait, RunFunc) \<longrightarrow>
            step a1 s = emit (Produced t) (goto t Notify (runFunc s)))
       \<and> (threads s ! t = (Wait, RunReturned True) \<longrightarrow> step a1 s = goto t Returned s)
       \<and> (threads s ! t = (Wait, StatusWait) \<longrightarrow>
            step a1 s = (if status s = kReady then goto t Returned s else s))
       \<and> (threads s ! t = (WaitFor, start WaitFor) \<and> status s \<noteq> kReady \<longrightarrow>
            step a1 s = (if allowInline s then goto t (RunLoop (status s)) s else goto t StatusWait s))"
  using assms
  by (simp add: step_def waitCommon_def run_loop_def run_func_def run_returned_def status_wait_def
      start_def goto_def emit_def)

text \<open>The waiter alone wins the exchange although \<^verbatim>\<open>allowInline_\<close> is false. In
  \<open>failing_system\<close> the waiter has loaded \<^verbatim>\<open>kNotStarted\<close> when the scheduled run wins the
  exchange: the waiter's exchange is lost, \<^verbatim>\<open>run(int)\<close> returns false, and the waiter
  blocks in \<^verbatim>\<open>status_.wait(kReady)\<close>.\<close>

theorem wait_runs_inline_or_blocks_witness:
  "0 < length (threads waiting_system) \<and> who (act 0) = 0
   \<and> threads waiting_system ! 0 = (Wait, start Wait) \<and> status waiting_system = kNotStarted
   \<and> \<not> fails (act 0) \<and> \<not> allowInline waiting_system
   \<and> exec [act 0, act 0] waiting_system =
       emit (Won 0) (goto 0 RunFunc (waiting_system\<lparr>status := kRunning\<rparr>))
   \<and> 1 < length (threads (exec (map act [1, 0]) failing_system)) \<and> who (act 1) = 1
   \<and> threads (exec (map act [1, 0]) failing_system) ! 1 = (Wait, RunLoop kNotStarted)
   \<and> status (exec (map act [1, 0]) failing_system) = kRunning
   \<and> winners (trace (exec (map act [1, 0]) failing_system)) = [0]
   \<and> exec [act 1, act 1, act 1] (exec (map act [1, 0]) failing_system) =
       goto 1 StatusWait (exec (map act [1, 0]) failing_system)
   \<and> threads (goto 1 StatusWait (exec (map act [1, 0]) failing_system)) ! 1 = (Wait, StatusWait)
   \<and> step (act 1) (goto 1 StatusWait (exec (map act [1, 0]) failing_system)) =
       goto 1 StatusWait (exec (map act [1, 0]) failing_system)"
proof -
  have h: "0 < length (threads waiting_system)" "who (act 0) = 0"
    "threads waiting_system ! 0 = (Wait, start Wait)" "status waiting_system = kNotStarted"
    "\<not> fails (act 0)" "\<not> allowInline waiting_system"
    by (simp_all add: waiting_system_def model_defs)
  from wait_runs_inline_or_blocks [OF h(1) h(2) h(2) h(2)] h
  have a: "exec [act 0, act 0] waiting_system =
       emit (Won 0) (goto 0 RunFunc (waiting_system\<lparr>status := kRunning\<rparr>))"
    by blast
  let ?s = "exec (map act [1, 0]) failing_system"
  have k: "1 < length (threads ?s)" "who (act 1) = 1"
    "threads ?s ! 1 = (Wait, RunLoop kNotStarted)" "status ?s = kRunning"
    "winners (trace ?s) = [0]" "status ?s \<noteq> kNotStarted"
    unfolding lost_run by (simp_all add: act_def)
  from wait_runs_inline_or_blocks [OF k(1) k(2) k(2) k(2)] k(3,6)
  have b: "exec [act 1, act 1, act 1] ?s = goto 1 StatusWait ?s" by blast
  have l: "1 < length (threads (goto 1 StatusWait ?s))"
    "threads (goto 1 StatusWait ?s) ! 1 = (Wait, StatusWait)"
    "status (goto 1 StatusWait ?s) \<noteq> kReady"
    unfolding lost_run by (simp_all add: goto_def)
  from wait_runs_inline_or_blocks [OF l(1) k(2) k(2) k(2)] l(2,3)
  have c: "step (act 1) (goto 1 StatusWait ?s) = goto 1 StatusWait ?s" by simp
  from h a k b l c show ?thesis by blast
qed

text \<open>
  The claim as it was stated fails: with \<^verbatim>\<open>allowInline_\<close> false and the status
  \<^verbatim>\<open>kNotStarted\<close>, the thread in \<^verbatim>\<open>wait()\<close> does not block; after three steps it has
  called the functor itself.
\<close>

theorem wait_ignores_allowInline:
  "allowInline waiting_system = False
   \<and> status waiting_system = kNotStarted
   \<and> producers (trace (exec (map act [0, 0, 0]) waiting_system)) = [0]
   \<and> pc_of (exec (map act [0, 0, 0]) waiting_system) 0 = Notify"
  by (simp add: waiting_system_def model_defs pc_of_def)

subsection \<open>A continuation installed on a ready core\<close>

text \<open>
  C3. Thread \<open>t\<close> is about to call \<^verbatim>\<open>addToThenChainOrExecute\<close> with the functor \<open>f\<close> and
  the status is \<^verbatim>\<open>kReady\<close>. Run by itself, its two steps load the status and call
  \<open>f\<close>: the functor is invoked by \<open>t\<close> and the chain is what it was. Under any schedule
  the thread goes from the load to the call to the return, the whole of what it does
  is that one invocation of \<open>f\<close> (\<open>direct_call\<close>), and it never pushes a node.
\<close>

theorem continuation_on_ready_core_runs_at_once:
  assumes "t < length (threads s)" and "threads s ! t = (Install f, start (Install f))"
    and "status s = kReady"
  shows "(who a1 = t \<and> who a2 = t \<longrightarrow>
            exec [a1, a2] s =
              s\<lparr>threads := (threads s)[t := (Install f, Returned)], trace := Invoked t f # trace s\<rparr>
            \<and> thenChain (exec [a1, a2] s) = thenChain s)
         \<and> direct_call t f (events_of t (trace s)) (exec sch s)
         \<and> (\<forall>b g. Pushed t b g \<in> set (trace (exec sch s)) \<longrightarrow> Pushed t b g \<in> set (trace s))"
proof -
  have d: "direct_call t f (events_of t (trace s)) (exec sch s)"
    by (rule direct_call_exec) (use assms in \<open>simp add: direct_call_def direct_stage_def start_def\<close>)
  have p: "Pushed t b g \<in> set (trace s)" if "Pushed t b g \<in> set (trace (exec sch s))" for b g
  proof -
    from that have "Pushed t b g \<in> set (events_of t (trace (exec sch s)))"
      by (simp add: events_of_def)
    with d have "Pushed t b g \<in> set (events_of t (trace s))"
      by (auto simp: direct_call_def split: if_splits)
    then show ?thesis by (simp add: events_of_def)
  qed
  have e: "exec [a1, a2] s =
              s\<lparr>threads := (threads s)[t := (Install f, Returned)], trace := Invoked t f # trace s\<rparr>
            \<and> thenChain (exec [a1, a2] s) = thenChain s" if "who a1 = t" "who a2 = t"
    using that assms
    by (simp add: step_def status_load1_def func_call_def goto_def emit_def start_def)
  show ?thesis using d p e by blast
qed

theorem continuation_on_ready_core_runs_at_once_witness:
  "1 < length (threads (exec (map act [0, 0, 0, 0, 0, 0, 0]) example_system))
   \<and> threads (exec (map act [0, 0, 0, 0, 0, 0, 0]) example_system) ! 1
       = (Install functor1, start (Install functor1))
   \<and> status (exec (map act [0, 0, 0, 0, 0, 0, 0]) example_system) = kReady
   \<and> who (act 1) = 1
   \<and> thenChain (exec [act 1, act 1] (exec (map act [0, 0, 0, 0, 0, 0, 0]) example_system))
       = thenChain (exec (map act [0, 0, 0, 0, 0, 0, 0]) example_system)
   \<and> trace (exec [act 1, act 1] (exec (map act [0, 0, 0, 0, 0, 0, 0]) example_system))
       = Invoked 1 functor1 # trace (exec (map act [0, 0, 0, 0, 0, 0, 0]) example_system)"
proof -
  let ?s = "exec (map act [0, 0, 0, 0, 0, 0, 0]) example_system"
  have h: "1 < length (threads ?s)" "threads ?s ! 1 = (Install functor1, start (Install functor1))"
    "status ?s = kReady" "who (act 1) = 1"
    unfolding plain_run by (simp_all add: start_def act_def)
  from continuation_on_ready_core_runs_at_once [OF h(1) h(2) h(3), of "act 1" "act 1" "[]"] h(4)
  have "exec [act 1, act 1] ?s =
          ?s\<lparr>threads := (threads ?s)[1 := (Install functor1, Returned)],
             trace := Invoked 1 functor1 # trace ?s\<rparr>
        \<and> thenChain (exec [act 1, act 1] ?s) = thenChain ?s"
    by blast
  then have "thenChain (exec [act 1, act 1] ?s) = thenChain ?s"
    and "trace (exec [act 1, act 1] ?s) = Invoked 1 functor1 # trace ?s"
    by simp_all
  with h show ?thesis by blast
qed

subsection \<open>Every continuation runs exactly once\<close>



subsection \<open>A failure of the functor\<close>

text \<open>
  C6. On a core created by \<^verbatim>\<open>createFutureImpl\<close>, under any schedule: the buffer is
  never filled while an exception is captured. When the functor throws \<open>e\<close>, the buffer
  stays empty for ever, and in every state in which the status is \<^verbatim>\<open>kReady\<close> the captured
  exception is \<open>e\<close> and \<^verbatim>\<open>result()\<close> rethrows \<open>e\<close>; \<^verbatim>\<open>result()\<close> does not change the
  core, so every call of it does. When the functor returns \<open>v\<close>, no exception is ever
  captured and \<^verbatim>\<open>result()\<close> is \<open>v\<close> once the status is \<^verbatim>\<open>kReady\<close>. \<^verbatim>\<open>runToResult\<close> of a
  functor that throws \<open>x\<close> leaves the buffer as it was and captures \<open>x\<close>.
\<close>

theorem producer_failure_is_captured:
  "\<not> (resultBuf (exec sch (future_system ai allow tsc f cs es)) \<noteq> None
       \<and> exception (exec sch (future_system ai allow tsc f cs es)) \<noteq> None)
   \<and> (\<forall>e. f = Inl e \<longrightarrow>
         resultBuf (exec sch (future_system ai allow tsc f cs es)) = None
         \<and> (status (exec sch (future_system ai allow tsc f cs es)) = kReady \<longrightarrow>
              exception (exec sch (future_system ai allow tsc f cs es)) = Some e
              \<and> result (exec sch (future_system ai allow tsc f cs es)) = Inl e))
   \<and> (\<forall>v. f = Inr v \<longrightarrow>
         exception (exec sch (future_system ai allow tsc f cs es)) = None
         \<and> (status (exec sch (future_system ai allow tsc f cs es)) = kReady \<longrightarrow>
              result (exec sch (future_system ai allow tsc f cs es)) = Inr (Some v)))
   \<and> resultBuf (runToResult (Inl x) c) = resultBuf c
   \<and> exception (runToResult (Inl x) c) = Some x
   \<and> result (runToResult (Inl x) c) = Inl x"
proof -
  let ?s = "exec sch (future_system ai allow tsc f cs es)"
  have i: "inv cs ?s" by (rule reachable_inv)
  then have r: "inv_run ?s" and sl: "inv_slot ?s" by (simp_all add: inv_def)
  have fn: "func ?s = Some f" by (simp add: exec_frame future_system_def system_of_simps)
  have pr: "producers (trace ?s) \<noteq> []" if "status ?s = kReady"
  proof -
    from r that have "length (producers (trace ?s)) = 1"
      by (auto simp: inv_run_def split: if_splits)
    then show ?thesis by auto
  qed
  show ?thesis using sl fn pr
    by (cases f) (auto simp: inv_slot_def result_def runToResult_def)
qed

theorem producer_failure_is_captured_witness:
  "status (exec (map act [0, 0, 0, 0, 0, 0, 0]) failing_system) = kReady
   \<and> resultBuf (exec (map act [0, 0, 0, 0, 0, 0, 0]) failing_system) = None
   \<and> exception (exec (map act [0, 0, 0, 0, 0, 0, 0]) failing_system) = Some 3
   \<and> result (exec (map act [0, 0, 0, 0, 0, 0, 0]) failing_system) = Inl 3"
proof -
  let ?s = "exec (map act [0, 0, 0, 0, 0, 0, 0]) failing_system"
  have h: "status ?s = kReady" unfolding failing_run by simp
  note T = producer_failure_is_captured [where sch = "map act [0, 0, 0, 0, 0, 0, 0]" and ai = False
      and allow = False and tsc = None and f = "Inl 3 :: nat outcome" and cs = "\<lambda>c. 0"
      and es = "[Run, Wait]", folded failing_system_def]
  from T h show ?thesis by blast
qed

subsection \<open>The counter of the task set\<close>



section \<open>\<^verbatim>\<open>when_all\<close>: the invariant holds in every reachable state\<close>

lemma unat_count: "k < 2 ^ 64 \<Longrightarrow> unat (of_nat k :: 64 word) = k"
  by (simp add: unat_of_nat)

lemma count_one:
  assumes "k < 2 ^ 64"
  shows "(of_nat k = (1 :: 64 word)) = (k = 1)"
proof
  assume "of_nat k = (1 :: 64 word)"
  then have "unat (of_nat k :: 64 word) = unat (1 :: 64 word)" by simp
  then show "k = 1" using unat_count [OF assms] by simp
next
  assume "k = 1"
  then show "of_nat k = (1 :: 64 word)" by simp
qed

lemma count_zero:
  assumes "k < 2 ^ 64"
  shows "(of_nat k = (0 :: 64 word)) = (k = 0)"
proof
  assume "of_nat k = (0 :: 64 word)"
  then have "unat (of_nat k :: 64 word) = unat (0 :: 64 word)" by simp
  then show "k = 0" using unat_count [OF assms] by simp
next
  assume "k = 0"
  then show "of_nat k = (0 :: 64 word)" by simp
qed

lemma count_dec: "0 < k \<Longrightarrow> of_nat k - (1 :: 64 word) = of_nat (k - 1)"
  by (cases k) simp_all

lemma distinct_below:
  assumes "distinct xs" and "set xs \<subseteq> {..<n}" and "i < n" and "i \<notin> set xs"
  shows "length xs < n"
proof -
  have "set xs \<subseteq> {..<n} - {i}" using assms by auto
  then have "card (set xs) \<le> card ({..<n} - {i})" by (intro card_mono) auto
  also have "\<dots> = n - 1" using assms(3) by simp
  finally show ?thesis using assms(1,3) by (simp add: distinct_card)
qed

lemma observers_set: "(i \<in> set (observers tr)) = (\<exists>v. Observed i v \<in> set tr)"
  by (induction tr rule: observers.induct) auto

lemma installeds_set: "(i \<in> set (installeds tr)) = (Installed i \<in> set tr)"
  by (induction tr rule: installeds.induct) auto

lemma firers_set: "(i \<in> set (firers tr)) = (Fired i \<in> set tr)"
  by (induction tr rule: firers.induct) auto

lemma run_res_simps:
  "vec (run_res s) = vec s" "order (run_res s) = order s" "wa_pc (run_res s) = wa_pc s"
  "savedOffFn (run_res s) = savedOffFn s" "wa_trace (run_res s) = wa_trace s"
  "form (run_res s) = form s" "completed (run_res s) = completed s"
  "res_member (run_res s) = res_member s"
  "shared_count (run_res s) = shared_count s" "shared_f (run_res s) = shared_f s"
  "crashed (run_res s) = crashed s"
  by (simp_all add: run_res_def)

lemma fan_in_simps:
  "vec (fan_in i s) = vec s" "order (fan_in i s) = order s" "wa_pc (fan_in i s) = wa_pc s"
  "savedOffFn (fan_in i s) = savedOffFn s" "form (fan_in i s) = form s"
  "completed (fan_in i s) = completed s" "res_member (fan_in i s) = res_member s"
  "wa_trace (fan_in i s) =
     (if shared_count s = 1 \<and> shared_f s then [Fired i] else []) @ Observed i (shared_count s) # wa_trace s"
  "shared_count (fan_in i s) = shared_count s - 1"
  "shared_f (fan_in i s) = (shared_f s \<and> shared_count s \<noteq> 1)"
  "crashed (fan_in i s) = (crashed s \<or> shared_count s = 1 \<and> \<not> shared_f s)"
  by (simp_all add: fan_in_def fire_def run_res_simps)

lemma todo_fan_in [simp]: "todo (fan_in i s) = todo s"
  by (simp add: todo_def fan_in_simps)

lemma wa_invD:
  assumes "wa_inv x n s"
  shows "length (vec s) = n" and "distinct (order s)" and "set (order s) = {..<n}"
    and "rev (installeds (wa_trace s)) @ todo s = order s"
    and "\<And>i. i < n \<Longrightarrow> input_ok x s i"
    and "distinct (observers (wa_trace s))" and "set (observers (wa_trace s)) \<subseteq> {..<n}"
    and "wa_pc s \<noteq> EmptyCheck \<Longrightarrow> wa_pc s \<noteq> MakeShared \<Longrightarrow> order s \<noteq> [] \<Longrightarrow>
            shared_count s = of_nat (n - length (observers (wa_trace s)))"
    and "firers (wa_trace s) =
            (if length (observers (wa_trace s)) = n \<and> observers (wa_trace s) \<noteq> []
             then [hd (observers (wa_trace s))] else [])"
    and "before_store (wa_pc s) \<Longrightarrow> wa_trace s = []"
    and "order s = [] \<Longrightarrow> (wa_pc s = EmptyCheck \<or> wa_pc s = WReturned) \<and> wa_trace s = []"
    and "(StoredF \<in> set (wa_trace s)) = (\<not> before_store (wa_pc s) \<and> order s \<noteq> [])"
    and "shared_f s = (StoredF \<in> set (wa_trace s) \<and> firers (wa_trace s) = [])"
    and "savedOffFn s = (wa_pc s = StoreF)"
    and "\<not> crashed s"
    and "wa_ordered (wa_trace s)"
    and "\<And>i. Observed i 1 \<in> set (wa_trace s) \<Longrightarrow> Fired i \<in> set (wa_trace s)"
    and "form s = Tuple LambdaFirst \<Longrightarrow> order s = []"
  using assms unfolding wa_inv_def by blast+

lemma wa_invI:
  assumes "length (vec s) = n" and "distinct (order s)" and "set (order s) = {..<n}"
    and "rev (installeds (wa_trace s)) @ todo s = order s"
    and "\<And>i. i < n \<Longrightarrow> input_ok x s i"
    and "distinct (observers (wa_trace s))" and "set (observers (wa_trace s)) \<subseteq> {..<n}"
    and "wa_pc s \<noteq> EmptyCheck \<Longrightarrow> wa_pc s \<noteq> MakeShared \<Longrightarrow> order s \<noteq> [] \<Longrightarrow>
            shared_count s = of_nat (n - length (observers (wa_trace s)))"
    and "firers (wa_trace s) =
            (if length (observers (wa_trace s)) = n \<and> observers (wa_trace s) \<noteq> []
             then [hd (observers (wa_trace s))] else [])"
    and "before_store (wa_pc s) \<Longrightarrow> wa_trace s = []"
    and "order s = [] \<Longrightarrow> (wa_pc s = EmptyCheck \<or> wa_pc s = WReturned) \<and> wa_trace s = []"
    and "(StoredF \<in> set (wa_trace s)) = (\<not> before_store (wa_pc s) \<and> order s \<noteq> [])"
    and "shared_f s = (StoredF \<in> set (wa_trace s) \<and> firers (wa_trace s) = [])"
    and "savedOffFn s = (wa_pc s = StoreF)"
    and "\<not> crashed s"
    and "wa_ordered (wa_trace s)"
    and "\<And>i. Observed i 1 \<in> set (wa_trace s) \<Longrightarrow> Fired i \<in> set (wa_trace s)"
    and "form s = Tuple LambdaFirst \<Longrightarrow> order s = []"
  shows "wa_inv x n s"
  unfolding wa_inv_def using assms by blast

lemma fan_in_inv:
  assumes "wa_inv (Some i) n s" and "i < n" and "n < 2 ^ 64" and "\<not> before_store (wa_pc s)"
  shows "wa_inv None n (fan_in i s)"
proof -
  let ?obs = "observers (wa_trace s)"
  note D = wa_invD [OF assms(1)]
  have me: "in_chain (vec s ! i) = 0" "i \<in> set (installeds (wa_trace s))" "i \<notin> set ?obs"
    "in_status (vec s ! i) = kReady"
    using D(5) [OF assms(2)] by (simp_all add: input_ok_def)
  have lt: "length ?obs < n" by (rule distinct_below [OF D(6) D(7) assms(2) me(3)])
  have "i \<in> set (order s)" unfolding D(3) using assms(2) by simp
  then have ne: "order s \<noteq> []" by auto
  have cnt: "shared_count s = of_nat (n - length ?obs)"
    using D(8) assms(4) ne by (simp add: before_store_def)
  have small: "n - length ?obs < 2 ^ 64" using assms(3) by simp
  have one: "(shared_count s = 1) = (Suc (length ?obs) = n)"
    unfolding cnt count_one [OF small] using lt by auto
  have dec: "shared_count s - 1 = of_nat (n - Suc (length ?obs))"
  proof -
    obtain k where k: "n - length ?obs = Suc k"
      using lt by (cases "n - length ?obs") auto
    then have k': "n - Suc (length ?obs) = k" by arith
    show ?thesis unfolding cnt k k' by simp
  qed
  have st: "StoredF \<in> set (wa_trace s)" using D(12) assms(4) ne by simp
  have nf: "firers (wa_trace s) = []" using D(9) lt by simp
  have sf: "shared_f s" using D(13) st nf by simp
  have inputs: "input_ok None (fan_in i s) j" if "j < n" for j
  proof (cases "j = i")
    case True
    then show ?thesis using me by (simp add: input_ok_def fan_in_simps)
  next
    case False
    then show ?thesis using D(5) [OF that] by (simp add: input_ok_def fan_in_simps)
  qed
  have fr: "Fired j \<in> set (wa_trace (fan_in i s))" if "Observed j 1 \<in> set (wa_trace (fan_in i s))" for j
    using that D(17) [of j] sf by (auto simp: fan_in_simps split: if_splits)
  have ord: "wa_ordered (wa_trace (fan_in i s))"
    using D(16) me(2) sf by (simp add: fan_in_simps)
  show ?thesis
  proof (rule wa_invI)
    show "\<And>j. j < n \<Longrightarrow> input_ok None (fan_in i s) j" by (rule inputs)
    show "wa_ordered (wa_trace (fan_in i s))" by (rule ord)
    show "\<And>j. Observed j 1 \<in> set (wa_trace (fan_in i s)) \<Longrightarrow> Fired j \<in> set (wa_trace (fan_in i s))"
      by (rule fr)
    show "shared_count (fan_in i s) = of_nat (n - length (observers (wa_trace (fan_in i s))))"
      by (simp add: fan_in_simps dec)
    show "firers (wa_trace (fan_in i s)) =
            (if length (observers (wa_trace (fan_in i s))) = n \<and> observers (wa_trace (fan_in i s)) \<noteq> []
             then [hd (observers (wa_trace (fan_in i s)))] else [])"
      using one sf nf by (simp add: fan_in_simps)
    show "shared_f (fan_in i s) = (StoredF \<in> set (wa_trace (fan_in i s)) \<and> firers (wa_trace (fan_in i s)) = [])"
      using one sf nf st by (simp add: fan_in_simps)
  qed (use D(1,2,3,4,6,7,14,15,18) me(3) assms(2,4) ne st sf in \<open>simp_all add: fan_in_simps\<close>)
qed

lemma input_ok_upd [simp]:
  "input_ok x (s\<lparr>shared_count := a\<rparr>) i = input_ok x s i"
  "input_ok x (s\<lparr>shared_f := b\<rparr>) i = input_ok x s i"
  "input_ok x (s\<lparr>savedOffFn := b\<rparr>) i = input_ok x s i"
  "input_ok x (s\<lparr>res_status := r\<rparr>) i = input_ok x s i"
  "input_ok x (s\<lparr>walker := w\<rparr>) i = input_ok x s i"
  "input_ok x (s\<lparr>res_started := k\<rparr>) i = input_ok x s i"
  "input_ok x (s\<lparr>res_member := m\<rparr>) i = input_ok x s i"
  "input_ok x (s\<lparr>completed := c\<rparr>) i = input_ok x s i"
  "input_ok x (s\<lparr>wa_pc := p\<rparr>) i = input_ok x s i"
  "input_ok x (s\<lparr>crashed := b\<rparr>) i = input_ok x s i"
  unfolding input_ok_def by simp_all

lemma order_nonempty:
  assumes "set (order s) = {..<n}"
  shows "(order s = []) = (n = 0)"
proof -
  have "(order s = []) = (set (order s) = {})" by simp
  also have "\<dots> = ({..<n} = {})" by (simp only: assms)
  also have "\<dots> = (n = 0)" by (rule lessThan_empty_iff)
  finally show ?thesis .
qed

lemma advance_inv:
  assumes "wa_inv None n s" and "n < 2 ^ 64"
  shows "wa_inv None n (advance s)"
proof -
  note D = wa_invD [OF assms(1)]
  note on = order_nonempty [OF D(3)]
  show ?thesis
  proof (cases "wa_pc s")
    case EmptyCheck
    then have tr: "wa_trace s = []" using D(10) by (simp add: before_store_def)
    show ?thesis
    proof (cases "vec s = []")
      case True
      then have "n = 0" using D(1) by simp
      then show ?thesis using EmptyCheck True tr D on
        by (intro wa_invI) (simp_all add: advance_def todo_def before_store_def)
    next
      case False
      then have "n \<noteq> 0" using D(1) by auto
      then show ?thesis using EmptyCheck False tr D on
        by (intro wa_invI) (simp_all add: advance_def todo_def before_store_def)
    qed
  next
    case MakeShared
    then have tr: "wa_trace s = []" using D(10) by (simp add: before_store_def)
    from MakeShared D(11) have "order s \<noteq> []" by auto
    then show ?thesis using MakeShared tr D on
      by (intro wa_invI) (simp_all add: advance_def todo_def before_store_def)
  next
    case Construct
    then have tr: "wa_trace s = []" using D(10) by (simp add: before_store_def)
    from Construct D(11) have "order s \<noteq> []" by auto
    then show ?thesis using Construct tr D on
      by (intro wa_invI) (simp_all add: advance_def todo_def before_store_def)
  next
    case StoreF
    then have tr: "wa_trace s = []" using D(10) by (simp add: before_store_def)
    from StoreF D(11) have "order s \<noteq> []" by auto
    then show ?thesis using StoreF tr D on
      by (intro wa_invI) (simp_all add: advance_def todo_def before_store_def input_ok_def)
  next
    case WReturned
    then show ?thesis using assms(1) by (simp add: advance_def)
  next
    case (Then rest)
    show ?thesis
    proof (cases rest)
      case Nil
      then show ?thesis using Then D on
        by (intro wa_invI) (simp_all add: advance_def todo_def before_store_def)
    next
      case (Cons i rest')
      let ?inst = "installeds (wa_trace s)"
      have ord: "rev ?inst @ i # rest' = order s" using D(4) Then Cons by (simp add: todo_def)
      then have "i \<in> set (order s)" by (metis in_set_conv_decomp)
      then have lt: "i < n" using D(3) by simp
      have ni: "i \<notin> set ?inst" using D(2) ord [symmetric] by auto
      have ne: "order s \<noteq> []" using ord by auto
      have st: "StoredF \<in> set (wa_trace s)" using D(12) Then ne by (simp add: before_store_def)
      have fm: "form s \<noteq> Tuple LambdaFirst" using D(18) ne by blast
      have me: "in_chain (vec s ! i) = 0" "i \<notin> set (observers (wa_trace s))"
        using D(5) [OF lt] ni by (auto simp: input_ok_def)
      show ?thesis
      proof (cases "in_status (vec s ! i) = kReady")
        case True
        let ?s1 = "s\<lparr>wa_pc := Then rest', wa_trace := Installed i # wa_trace s\<rparr>"
        have ok: "input_ok (Some i) ?s1 j" if "j < n" for j
          using D(5) [OF that] me True by (auto simp: input_ok_def)
        have "wa_inv (Some i) n ?s1"
          using Then Cons D on ord st ne ok
          by (intro wa_invI) (simp_all add: todo_def before_store_def)
        then have "wa_inv None n (fan_in i ?s1)"
          by (rule fan_in_inv) (use lt assms(2) in \<open>simp_all add: before_store_def\<close>)
        then show ?thesis using Then Cons True fm by (simp add: advance_def install_def)
      next
        case False
        let ?s1 = "s\<lparr>wa_pc := Then rest',
             vec := (vec s)[i := (vec s ! i)\<lparr>in_chain := in_chain (vec s ! i) + 1\<rparr>],
             wa_trace := Installed i # wa_trace s\<rparr>"
        have ok: "input_ok None ?s1 j" if "j < n" for j
          using D(5) [OF that] D(1) me that lt
          by (cases "j = i") (auto simp: input_ok_def)
        have "wa_inv None n ?s1"
          using Then Cons D on ord st ne ok
          by (intro wa_invI) (simp_all add: todo_def before_store_def)
        then show ?thesis using Then Cons False fm by (simp add: advance_def install_def)
      qed
    qed
  qed
qed

lemma runToResult_input [simp]:
  "in_chain (runToResult fn m) = in_chain m"
  "in_status (runToResult fn m) = in_status m"
  "in_func (runToResult fn m) = in_func m"
  by (simp_all add: runToResult_def split: sum.splits)

lemma complete_inv:
  assumes "wa_inv None n s"
  shows "wa_inv None n (complete i s)"
proof (cases "i < length (vec s) \<and> in_status (vec s ! i) \<noteq> kReady")
  case False
  then have "complete i s = s" unfolding complete_def by (simp only: if_False)
  then show ?thesis using assms by simp
next
  case True
  note D = wa_invD [OF assms]
  let ?s1 = "s\<lparr>vec := (vec s)[i := (runToResult (in_func (vec s ! i)) (vec s ! i))\<lparr>in_status := kReady\<rparr>],
               completed := i # completed s\<rparr>"
  have ok: "input_ok None ?s1 j" if "j < n" for j
    using D(5) [OF that] D(1) True that
    by (cases "j = i") (auto simp: input_ok_def)
  have "wa_inv None n ?s1"
    using D ok by (intro wa_invI) (simp_all add: todo_def)
  moreover have "complete i s = ?s1" using True by (simp add: complete_def)
  ultimately show ?thesis by simp
qed

lemma drain_inv:
  assumes "wa_inv None n s" and "n < 2 ^ 64"
  shows "wa_inv None n (drain i s)"
proof (cases "i < length (vec s) \<and> in_status (vec s ! i) = kReady \<and> 0 < in_chain (vec s ! i)")
  case False
  then have "drain i s = s" unfolding drain_def by (simp only: if_False)
  then show ?thesis using assms by simp
next
  case True
  note D = wa_invD [OF assms(1)]
  from True D(1) have lt: "i < n" by simp
  have me: "i \<in> set (installeds (wa_trace s))" "i \<notin> set (observers (wa_trace s))"
    using D(5) [OF lt] True by (auto simp: input_ok_def split: if_splits)
  then have tr: "wa_trace s \<noteq> []" by auto
  then have nb: "\<not> before_store (wa_pc s)" using D(10) by blast
  let ?s1 = "s\<lparr>vec := (vec s)[i := (vec s ! i)\<lparr>in_chain := in_chain (vec s ! i) - 1\<rparr>]\<rparr>"
  have ok: "input_ok (Some i) ?s1 j" if "j < n" for j
    using D(5) [OF that] D(1) True that me
    by (cases "j = i") (auto simp: input_ok_def split: if_splits)
  have "wa_inv (Some i) n ?s1"
    using D ok by (intro wa_invI) (simp_all add: todo_def)
  then have "wa_inv None n (fan_in i ?s1)"
    by (rule fan_in_inv) (use lt assms(2) nb in simp_all)
  moreover have "drain i s = fan_in i ?s1" using True by (simp add: drain_def)
  ultimately show ?thesis by simp
qed

lemma wa_inv_res [simp]:
  "wa_inv x n (s\<lparr>walker := w\<rparr>) = wa_inv x n s"
  "wa_inv x n (s\<lparr>res_status := r\<rparr>) = wa_inv x n s"
  "wa_inv x n (s\<lparr>res_started := k\<rparr>) = wa_inv x n s"
  "wa_inv x n (s\<lparr>res_member := m\<rparr>) = wa_inv x n s"
  "wa_inv x n (s\<lparr>completed := c\<rparr>) = wa_inv x n s"
  by (simp_all add: wa_inv_def todo_def)

lemma walk_inv: "wa_inv None n s \<Longrightarrow> wa_inv None n (walk s)"
  by (simp add: walk_def whenComplete_returns_def split: option.splits list.splits)

lemma wait_res_inv: "wa_inv None n s \<Longrightarrow> wa_inv None n (wait_res s)"
  by (simp add: wait_res_def run_res_def)

lemma wa_step_inv:
  assumes "wa_inv None n s" and "n < 2 ^ 64"
  shows "wa_inv None n (wa_step a s)"
  using assms
  by (cases a) (simp_all add: advance_inv complete_inv drain_inv walk_inv wait_res_inv)

lemma wa_exec_inv:
  assumes "wa_inv None n s" and "n < 2 ^ 64"
  shows "wa_inv None n (wa_exec sch s)"
  using assms(1)
proof (induction sch arbitrary: s)
  case Nil
  then show ?case by simp
next
  case (Cons a sch)
  have "wa_inv None n (wa_step a s)" using Cons.prems assms(2) by (rule wa_step_inv)
  then have "wa_inv None n (wa_exec sch (wa_step a s))" by (rule Cons.IH)
  then show ?case by simp
qed


section \<open>\<^verbatim>\<open>when_all\<close>: the output future and the results of the inputs\<close>

lemma set_ForEachApply: "set (ForEachApply k) = {..k}"
  by (induction k) (auto simp: atMost_Suc)

lemma distinct_ForEachApply: "distinct (ForEachApply k)"
  by (induction k) (simp_all add: set_ForEachApply)

lemma set_visit: "set (visit fm n) = {..<n}"
  by (cases fm; cases n) (auto simp: visit_def set_ForEachApply lessThan_Suc_atMost)

lemma distinct_visit: "distinct (visit fm n)"
  by (cases fm) (simp_all add: visit_def distinct_ForEachApply)

lemma visit_empty: "(visit fm n = []) = (n = 0)"
proof -
  have "(visit fm n = []) = (set (visit fm n) = {})" by simp
  also have "\<dots> = (n = 0)" unfolding set_visit by (simp add: lessThan_empty_iff)
  finally show ?thesis .
qed

lemma new_input_simps:
  "in_chain (new_input st fn) = 0" "in_status (new_input st fn) = st"
  "in_func (new_input st fn) = fn"
  by (simp_all add: new_input_def Let_def runToResult_def split: sum.splits)

lemma inputs_of_simps:
  "length (inputs_of specs) = length specs"
  "i < length specs \<Longrightarrow> inputs_of specs ! i = new_input (fst (specs ! i)) (snd (specs ! i))"
  by (simp_all add: inputs_of_def)

lemma when_all_init_simps:
  "vec (when_all_init fm ins) = ins" "shared_f (when_all_init fm ins) = False"
  "savedOffFn (when_all_init fm ins) = False" "order (when_all_init fm ins) = visit fm (length ins)"
  "res_status (when_all_init fm ins) = None" "walker (when_all_init fm ins) = None"
  "crashed (when_all_init fm ins) = False" "wa_trace (when_all_init fm ins) = []"
  "res_started (when_all_init fm ins) = 0" "shared_count (when_all_init fm ins) = 0"
  "form (when_all_init fm ins) = fm" "completed (when_all_init fm ins) = []"
  "res_member (when_all_init fm ins) = \<lparr>resultBuf = None, exception = None\<rparr>"
  by (simp_all add: when_all_init_def)

lemma init_pc:
  "wa_pc (when_all_init fm ins) = EmptyCheck \<or> wa_pc (when_all_init fm ins) = MakeShared"
  "ins = [] \<Longrightarrow> wa_pc (when_all_init fm ins) = EmptyCheck"
  by (cases fm; simp add: when_all_init_def)+

lemma wa_inv_init:
  assumes "fm = Tuple LambdaFirst \<longrightarrow> specs = []"
  shows "wa_inv None (length specs) (when_all_init fm (inputs_of specs))"
proof (rule wa_invI)
  show "form (when_all_init fm (inputs_of specs)) = Tuple LambdaFirst \<Longrightarrow>
          order (when_all_init fm (inputs_of specs)) = []"
    using assms by (simp add: when_all_init_simps visit_empty inputs_of_simps)
next
  fix i assume "i < length specs"
  then show "input_ok None (when_all_init fm (inputs_of specs)) i"
    by (simp add: input_ok_def when_all_init_simps inputs_of_simps new_input_simps)
next
  show "rev (installeds (wa_trace (when_all_init fm (inputs_of specs)))) @ todo (when_all_init fm (inputs_of specs))
          = order (when_all_init fm (inputs_of specs))"
    using init_pc(1) [of fm "inputs_of specs"]
    by (auto simp: todo_def when_all_init_simps)
next
  show "order (when_all_init fm (inputs_of specs)) = [] \<Longrightarrow>
          (wa_pc (when_all_init fm (inputs_of specs)) = EmptyCheck \<or> wa_pc (when_all_init fm (inputs_of specs)) = WReturned)
          \<and> wa_trace (when_all_init fm (inputs_of specs)) = []"
    using init_pc(2) [of "inputs_of specs" fm]
    by (simp add: when_all_init_simps visit_empty inputs_of_simps inputs_of_def)
next
  show "(StoredF \<in> set (wa_trace (when_all_init fm (inputs_of specs)))) =
          (\<not> before_store (wa_pc (when_all_init fm (inputs_of specs))) \<and> order (when_all_init fm (inputs_of specs)) \<noteq> [])"
    using init_pc(1) [of fm "inputs_of specs"]
    by (auto simp: when_all_init_simps before_store_def)
next
  show "savedOffFn (when_all_init fm (inputs_of specs)) = (wa_pc (when_all_init fm (inputs_of specs)) = StoreF)"
    using init_pc(1) [of fm "inputs_of specs"]
    by (auto simp: when_all_init_simps)
next
  show "wa_pc (when_all_init fm (inputs_of specs)) \<noteq> EmptyCheck \<Longrightarrow>
        wa_pc (when_all_init fm (inputs_of specs)) \<noteq> MakeShared \<Longrightarrow>
        order (when_all_init fm (inputs_of specs)) \<noteq> [] \<Longrightarrow>
        shared_count (when_all_init fm (inputs_of specs)) =
          of_nat (length specs - length (observers (wa_trace (when_all_init fm (inputs_of specs)))))"
    using init_pc(1) [of fm "inputs_of specs"] by blast
qed (simp_all add: when_all_init_simps inputs_of_simps set_visit distinct_visit)

lemma res_inv_init: "res_inv (when_all_init fm ins)"
  using init_pc(1) [of fm ins]
  by (auto simp: res_inv_def when_all_init_simps)


lemma all_observed:
  assumes "wa_inv None n s" and "n < 2 ^ 64" and "shared_count s = 0"
    and "wa_pc s \<noteq> EmptyCheck" and "wa_pc s \<noteq> MakeShared" and "order s \<noteq> []"
  shows "set (observers (wa_trace s)) = {..<n}"
proof -
  note D = wa_invD [OF assms(1)]
  let ?obs = "observers (wa_trace s)"
  have "of_nat (n - length ?obs) = (0 :: 64 word)" using D(8) assms(3-6) by simp
  moreover have "n - length ?obs < 2 ^ 64" using assms(2) by simp
  ultimately have "n - length ?obs = 0" using count_zero by blast
  then have "n \<le> length ?obs" by simp
  then have "card {..<n} \<le> card (set ?obs)" using D(6) by (simp add: distinct_card)
  with D(7) show ?thesis by (intro card_seteq) auto
qed

lemma observed_ready:
  assumes "wa_inv None n s" and "i < n" and "i \<in> set (observers (wa_trace s))"
  shows "in_status (vec s ! i) = kReady"
  using wa_invD(5) [OF assms(1,2)] assms(3) by (simp add: input_ok_def)

lemma in_status_chain [simp]:
  "in_status (xs[i := (xs ! i)\<lparr>in_chain := c\<rparr>] ! j) = in_status (xs ! j)"
  by (cases "i < length xs"; cases "j = i") (simp_all add: list_update_beyond)

lemma fan_in_res:
  assumes "res_inv s" and "res_status s \<noteq> None"
  shows "res_inv (fan_in i s)"
  using assms
  by (cases "the (res_status s)") (auto simp: fan_in_def fire_def run_res_def res_inv_def)

lemma advance_res:
  assumes "wa_inv None n s" and "res_inv s"
  shows "res_inv (advance s)"
proof (cases "wa_pc s")
  case EmptyCheck
  have "vec s = [] \<Longrightarrow> order s = []"
    using wa_invD(1) [OF assms(1)] order_nonempty [OF wa_invD(3) [OF assms(1)]] by simp
  then show ?thesis
    using EmptyCheck assms(2) wa_invD(10) [OF assms(1)] wa_invD(11) [OF assms(1)]
    by (auto simp: advance_def res_inv_def before_store_def)
next
  case MakeShared
  then show ?thesis using assms(2) by (auto simp: advance_def res_inv_def)
next
  case Construct
  then show ?thesis
    using assms(2) wa_invD(10) [OF assms(1)] wa_invD(11) [OF assms(1)]
    by (auto simp: advance_def res_inv_def before_store_def)
next
  case StoreF
  then show ?thesis
    using assms(2) wa_invD(11) [OF assms(1)]
    by (auto simp: advance_def res_inv_def)
next
  case WReturned
  then show ?thesis using assms(2) by (simp add: advance_def)
next
  case (Then w)
  have ne: "order s \<noteq> []" using wa_invD(11) [OF assms(1)] Then by auto
  have st: "res_status s \<noteq> None" using assms(2) Then by (simp add: res_inv_def)
  show ?thesis
  proof (cases w)
    case Nil
    then show ?thesis using assms(2) Then ne by (auto simp: advance_def res_inv_def)
  next
    case (Cons i rest)
    have a: "res_inv (s\<lparr>wa_pc := Then rest, wa_trace := Installed i # wa_trace s\<rparr>)"
      using assms(2) Then by (auto simp: res_inv_def)
    have b: "res_inv (fan_in i (s\<lparr>wa_pc := Then rest, wa_trace := Installed i # wa_trace s\<rparr>))"
      by (rule fan_in_res [OF a]) (use st in simp)
    have c: "res_inv (s\<lparr>wa_pc := Then rest,
               vec := (vec s)[i := (vec s ! i)\<lparr>in_chain := in_chain (vec s ! i) + 1\<rparr>],
               wa_trace := Installed i # wa_trace s\<rparr>)"
      using assms(2) Then by (auto simp: res_inv_def)
    have d: "res_inv (s\<lparr>crashed := True\<rparr>)" using assms(2) by (simp add: res_inv_def)
    show ?thesis using b c d Then Cons by (simp add: advance_def install_def)
  qed
qed

lemma complete_res:
  assumes "res_inv s"
  shows "res_inv (complete i s)"
proof (cases "i < length (vec s) \<and> in_status (vec s ! i) \<noteq> kReady")
  case False
  then have "complete i s = s" unfolding complete_def by (simp only: if_False)
  then show ?thesis using assms by simp
next
  case True
  then show ?thesis
    using assms by (auto simp: complete_def res_inv_def nth_list_update)
qed

lemma drain_res:
  assumes "wa_inv None n s" and "res_inv s"
  shows "res_inv (drain i s)"
proof (cases "i < length (vec s) \<and> in_status (vec s ! i) = kReady \<and> 0 < in_chain (vec s ! i)")
  case False
  then have "drain i s = s" unfolding drain_def by (simp only: if_False)
  then show ?thesis using assms by simp
next
  case True
  note D = wa_invD [OF assms(1)]
  from True D(1) have lt: "i < n" by simp
  have "i \<in> set (installeds (wa_trace s))"
    using D(5) [OF lt] True by (auto simp: input_ok_def split: if_splits)
  then have "wa_trace s \<noteq> []" by auto
  then have "\<not> before_store (wa_pc s)" using D(10) by blast
  then have st: "res_status s \<noteq> None" using assms(2) by (auto simp: res_inv_def before_store_def)
  let ?s1 = "s\<lparr>vec := (vec s)[i := (vec s ! i)\<lparr>in_chain := in_chain (vec s ! i) - 1\<rparr>]\<rparr>"
  have "res_inv ?s1" using assms(2) by (auto simp: res_inv_def)
  then have "res_inv (fan_in i ?s1)" by (rule fan_in_res) (use st in simp)
  moreover have "drain i s = fan_in i ?s1" using True by (simp add: drain_def)
  ultimately show ?thesis by simp
qed

lemma wait_res_res:
  assumes "res_inv s"
  shows "res_inv (wait_res s)"
  using assms
  by (cases "the (res_status s)") (auto simp: wait_res_def run_res_def res_inv_def)

lemma walk_res:
  assumes "wa_inv None n s" and "n < 2 ^ 64" and "res_inv s"
  shows "res_inv (walk s)"
proof (cases "walker s")
  case None
  then show ?thesis using assms(3) by (simp add: walk_def)
next
  case (Some w)
  note D = wa_invD [OF assms(1)]
  have run: "res_status s = Some kRunning" using assms(3) Some by (simp add: res_inv_def)
  obtain passed where p: "order s = passed @ w" "\<forall>j\<in>set passed. in_status (vec s ! j) = kReady"
    using assms(3) Some unfolding res_inv_def by blast
  have pc: "wa_pc s \<noteq> EmptyCheck" "wa_pc s \<noteq> MakeShared" "wa_pc s \<noteq> Construct"
    using assms(3) run by (auto simp: res_inv_def)
  have ne: "order s \<noteq> []"
  proof
    assume e: "order s = []"
    then have "wa_pc s = WReturned" using D(11) pc(1) by blast
    then show False using assms(3) e run by (simp add: res_inv_def)
  qed
  have fin: "res_inv (whenComplete_returns s)"
    if "\<forall>i<n. in_status (vec s ! i) = kReady"
    using assms(3) that D(1) pc ne run by (auto simp: res_inv_def whenComplete_returns_def)
  show ?thesis
  proof (cases w)
    case Nil
    have "set passed = {..<n}" using p(1) D(3) Nil by simp
    then have "\<forall>i<n. in_status (vec s ! i) = kReady" using p(2) by blast
    then show ?thesis using fin Some Nil by (simp add: walk_def)
  next
    case (Cons i rest)
    show ?thesis
    proof (cases "shared_count s = 0")
      case True
      have "order s \<noteq> []" using p(1) Cons by simp
      then have "set (observers (wa_trace s)) = {..<n}"
        using all_observed [OF assms(1,2) True pc(1,2)] by simp
      then have "\<forall>i<n. in_status (vec s ! i) = kReady"
        using observed_ready [OF assms(1)] by blast
      then show ?thesis using fin Some Cons True by (simp add: walk_def)
    next
      case False
      show ?thesis
      proof (cases "in_status (vec s ! i) = kReady")
        case True
        have o: "order s = (passed @ [i]) @ rest" using p(1) Cons by simp
        have r: "\<forall>j\<in>set (passed @ [i]). in_status (vec s ! j) = kReady" using p(2) True by simp
        have "res_inv (s\<lparr>walker := Some rest\<rparr>)"
          using assms(3) Some p(1) r pc run Cons
          by (auto simp: res_inv_def intro!: exI [of _ "passed @ [i]"])
        then show ?thesis using Some Cons False True by (simp add: walk_def)
      next
        case ready: False
        then show ?thesis using assms(3) Some Cons False by (simp add: walk_def)
      qed
    qed
  qed
qed

lemma result_simps [simp]:
  "result (m\<lparr>in_chain := c\<rparr>) = result m" "result (m\<lparr>in_status := st\<rparr>) = result m"
  "exception (runToResult f m) = (case f of Inl e \<Rightarrow> Some e | Inr v \<Rightarrow> exception m)"
  "resultBuf (runToResult f m) = (case f of Inl e \<Rightarrow> resultBuf m | Inr v \<Rightarrow> Some v)"
  by (simp_all add: result_def runToResult_def split: sum.splits option.splits)

lemma spec_inv_init: "spec_inv specs (when_all_init fm (inputs_of specs))"
  by (auto simp: spec_inv_def when_all_init_simps inputs_of_simps new_input_def Let_def
      result_def runToResult_def split: sum.splits)

lemma spec_inv_vec: "vec s' = vec s \<Longrightarrow> spec_inv specs s' = spec_inv specs s"
  by (simp add: spec_inv_def)

lemma spec_inv_chain:
  "spec_inv specs (s\<lparr>vec := (vec s)[i := (vec s ! i)\<lparr>in_chain := c\<rparr>]\<rparr>) = spec_inv specs s"
proof -
  have "f (xs[i := (xs ! i)\<lparr>in_chain := c\<rparr>] ! j) = f (xs ! j)"
    if "\<And>m. f (m\<lparr>in_chain := c\<rparr>) = f m" for f :: "'a input \<Rightarrow> 'b" and xs j
    using that by (cases "i < length xs"; cases "j = i") (simp_all add: list_update_beyond)
  note this [simp]
  show ?thesis by (simp add: spec_inv_def)
qed

lemma advance_vec:
  "vec (advance s) = vec s \<or> (\<exists>i c. vec (advance s) = (vec s)[i := (vec s ! i)\<lparr>in_chain := c\<rparr>])"
  by (auto simp: advance_def install_def fan_in_simps split: wa_pc.splits list.splits)

lemma drain_vec:
  "vec (drain i s) = vec s \<or> (\<exists>c. vec (drain i s) = (vec s)[i := (vec s ! i)\<lparr>in_chain := c\<rparr>])"
  by (auto simp: drain_def fan_in_simps)

lemma spec_inv_vec_chain:
  assumes "vec s' = vec s \<or> (\<exists>i c. vec s' = (vec s)[i := (vec s ! i)\<lparr>in_chain := c\<rparr>])"
    and "spec_inv specs s"
  shows "spec_inv specs s'"
proof -
  from assms(1) consider "vec s' = vec s"
    | i c where "vec s' = vec (s\<lparr>vec := (vec s)[i := (vec s ! i)\<lparr>in_chain := c\<rparr>]\<rparr>)"
    by auto
  then show ?thesis
  proof cases
    case 1
    then show ?thesis using assms(2) spec_inv_vec by blast
  next
    case 2
    then show ?thesis using assms(2) spec_inv_vec spec_inv_chain by blast
  qed
qed

lemma complete_spec:
  assumes "spec_inv specs s"
  shows "spec_inv specs (complete i s)"
proof (cases "i < length (vec s) \<and> in_status (vec s ! i) \<noteq> kReady")
  case False
  then have "complete i s = s" unfolding complete_def by (simp only: if_False)
  then show ?thesis using assms by simp
next
  case True
  then show ?thesis
    using assms
    by (auto simp: complete_def spec_inv_def nth_list_update result_def runToResult_def
        split: sum.splits)
qed

lemma wa_step_spec:
  assumes "spec_inv specs s"
  shows "spec_inv specs (wa_step a s)"
proof (cases a)
  case Advance
  then show ?thesis using spec_inv_vec_chain [OF advance_vec assms] by simp
next
  case (Complete i)
  then show ?thesis using complete_spec [OF assms] by simp
next
  case (Drain i)
  have "spec_inv specs (drain i s)"
    by (rule spec_inv_vec_chain [OF _ assms]) (use drain_vec [of i s] in blast)
  then show ?thesis using Drain by simp
next
  case Walk
  have "vec (walk s) = vec s"
    by (simp add: walk_def whenComplete_returns_def split: option.splits list.splits)
  then show ?thesis using Walk assms spec_inv_vec by auto
next
  case WaitRes
  have "vec (wait_res s) = vec s" by (simp add: wait_res_def run_res_simps)
  then show ?thesis using WaitRes assms spec_inv_vec by auto
qed

lemma wa_step_res:
  assumes "wa_inv None n s" and "n < 2 ^ 64" and "res_inv s"
  shows "res_inv (wa_step a s)"
  using assms
  by (cases a) (simp_all add: advance_res complete_res drain_res walk_res wait_res_res)

lemma wa_exec_res:
  assumes "n < 2 ^ 64" and "wa_inv None n s" and "res_inv s"
  shows "res_inv (wa_exec sch s)"
  using assms(2,3)
proof (induction sch arbitrary: s)
  case Nil
  then show ?case by simp
next
  case (Cons a sch)
  have "wa_inv None n (wa_step a s)" using Cons.prems(1) assms(1) by (rule wa_step_inv)
  moreover have "res_inv (wa_step a s)" using Cons.prems(1) assms(1) Cons.prems(2) by (rule wa_step_res)
  ultimately have "res_inv (wa_exec sch (wa_step a s))" by (rule Cons.IH)
  then show ?case by simp
qed



section \<open>\<^verbatim>\<open>when_all\<close>: the result member of the output future\<close>

lemma fan_in_ready:
  "(res_status (fan_in i s) = Some kReady) = (res_status s = Some kReady)"
  by (auto simp: fan_in_def fire_def run_res_def)

lemma agg_inv_init: "agg_inv specs (when_all_init fm ins)"
  by (simp add: agg_inv_def when_all_init_simps)

lemma agg_inv_same:
  assumes "res_member s' = res_member s"
    and "(res_status s' = Some kReady) = (res_status s = Some kReady)"
  shows "agg_inv specs s' = agg_inv specs s"
  using assms by (simp add: agg_inv_def split: option.splits)

lemma advance_member:
  assumes "\<not> (wa_pc s = EmptyCheck \<and> vec s = [])" and "wa_pc s = Construct \<longrightarrow> res_status s = None"
  shows "res_member (advance s) = res_member s"
    and "(res_status (advance s) = Some kReady) = (res_status s = Some kReady)"
  using assms
  by (auto simp: advance_def install_def fan_in_simps fan_in_ready split: wa_pc.splits list.splits)

lemma advance_agg:
  assumes "spec_inv specs s" and "agg_inv specs s"
    and "wa_pc s = Construct \<longrightarrow> res_status s = None"
  shows "agg_inv specs (advance s)"
proof (cases "wa_pc s = EmptyCheck \<and> vec s = []")
  case True
  then have "length specs = 0" using assms(1) by (simp add: spec_inv_def)
  then show ?thesis
    using True assms(2) by (simp add: advance_def agg_inv_def setAsResult_def)
next
  case False
  show ?thesis using agg_inv_same [OF advance_member [OF False assms(3)]] assms(2) by simp
qed

lemma complete_agg:
  assumes "agg_inv specs s"
  shows "agg_inv specs (complete i s)"
proof -
  have "res_member (complete i s) = res_member s" "res_status (complete i s) = res_status s"
    by (simp_all add: complete_def)
  then show ?thesis using agg_inv_same [of "complete i s" s specs] assms by simp
qed

lemma drain_agg:
  assumes "agg_inv specs s"
  shows "agg_inv specs (drain i s)"
proof -
  have "res_member (drain i s) = res_member s"
    "(res_status (drain i s) = Some kReady) = (res_status s = Some kReady)"
    by (simp_all add: drain_def fan_in_simps fan_in_ready)
  then show ?thesis using agg_inv_same [of "drain i s" s specs] assms by simp
qed

lemma wait_res_agg:
  assumes "agg_inv specs s"
  shows "agg_inv specs (wait_res s)"
proof -
  have "res_member (wait_res s) = res_member s"
    "(res_status (wait_res s) = Some kReady) = (res_status s = Some kReady)"
    by (auto simp: wait_res_def run_res_def)
  then show ?thesis using agg_inv_same [of "wait_res s" s specs] assms by simp
qed

lemma walk_agg:
  assumes "wa_inv None n s" and "n < 2 ^ 64" and "res_inv s" and "spec_inv specs s"
    and "agg_inv specs s"
  shows "agg_inv specs (walk s)"
proof -
  have same: "agg_inv specs s'" if "res_member s' = res_member s" "res_status s' = res_status s" for s'
    using agg_inv_same [of s' s specs] that assms(5) by simp
  have ret: "agg_inv specs (whenComplete_returns s)" if w: "walk s = whenComplete_returns s"
  proof -
    have r: "res_inv (whenComplete_returns s)" using walk_res [OF assms(1-3)] w by simp
    have l: "length (vec s) = length specs" using assms(4) by (simp add: spec_inv_def)
    have "res_status (whenComplete_returns s) = Some kReady" "vec (whenComplete_returns s) = vec s"
      by (simp_all add: whenComplete_returns_def)
    then have ready: "\<forall>i<length specs. in_status (vec s ! i) = kReady"
      using r l by (simp add: res_inv_def)
    then have "\<forall>i<length specs. result (vec s ! i) =
        result (runToResult (snd (specs ! i)) \<lparr>resultBuf = None, exception = None\<rparr>)"
      using assms(4) by (simp add: spec_inv_def)
    moreover have "exception (res_member s) = None" using assms(5) by (simp add: agg_inv_def)
    ultimately show ?thesis
      using ready l by (simp add: whenComplete_returns_def agg_inv_def runToResult_def)
  qed
  show ?thesis
  proof (cases "walker s")
    case None
    then show ?thesis using assms(5) by (simp add: walk_def)
  next
    case (Some w)
    show ?thesis
    proof (cases w)
      case Nil
      then have "walk s = whenComplete_returns s" using Some by (simp add: walk_def)
      then show ?thesis using ret by simp
    next
      case (Cons i rest)
      show ?thesis
      proof (cases "shared_count s = 0")
        case True
        then have "walk s = whenComplete_returns s" using Some Cons by (simp add: walk_def)
        then show ?thesis using ret by simp
      next
        case False
        show ?thesis
        proof (cases "in_status (vec s ! i) = kReady")
          case True
          then have "walk s = s\<lparr>walker := Some rest\<rparr>"
            using Some Cons False by (simp add: walk_def)
          then show ?thesis using same [of "s\<lparr>walker := Some rest\<rparr>"] by simp
        next
          case ready: False
          then have "walk s = s" using Some Cons False by (simp add: walk_def)
          then show ?thesis using assms(5) by simp
        qed
      qed
    qed
  qed
qed

lemma wa_step_agg:
  assumes "wa_inv None n s" and "n < 2 ^ 64" and "res_inv s" and "spec_inv specs s"
    and "agg_inv specs s"
  shows "agg_inv specs (wa_step a s)"
proof -
  have "wa_pc s = Construct \<longrightarrow> res_status s = None" using assms(3) by (simp add: res_inv_def)
  then show ?thesis
    using assms
    by (cases a) (simp_all add: advance_agg complete_agg drain_agg walk_agg wait_res_agg)
qed

lemma wa_exec_agg:
  assumes "n < 2 ^ 64" and "wa_inv None n s" and "res_inv s" and "spec_inv specs s"
    and "agg_inv specs s"
  shows "agg_inv specs (wa_exec sch s)"
  using assms(2-5)
proof (induction sch arbitrary: s)
  case Nil
  then show ?case by simp
next
  case (Cons a sch)
  have "wa_inv None n (wa_step a s)" using Cons.prems(1) assms(1) by (rule wa_step_inv)
  moreover have "res_inv (wa_step a s)"
    using Cons.prems(1) assms(1) Cons.prems(2) by (rule wa_step_res)
  moreover have "spec_inv specs (wa_step a s)" using Cons.prems(3) by (rule wa_step_spec)
  moreover have "agg_inv specs (wa_step a s)"
    using Cons.prems(1) assms(1) Cons.prems(2,3,4) by (rule wa_step_agg)
  ultimately have "agg_inv specs (wa_exec sch (wa_step a s))" by (rule Cons.IH)
  then show ?case by simp
qed


section \<open>\<^verbatim>\<open>when_all\<close>: the tuple form when \<^verbatim>\<open>shared\<close> is moved first\<close>












section \<open>\<^verbatim>\<open>when_all\<close>: without a waiter, \<^verbatim>\<open>whenComplete\<close> is started by \<^verbatim>\<open>shared->f\<close>\<close>

lemma nowait_step:
  assumes "wa_inv None n s" and "a \<noteq> WaitRes" and "res_inv s"
    and "res_status s = Some kRunning \<or> res_status s = Some kReady \<longrightarrow>
           order s = [] \<or> firers (wa_trace s) \<noteq> []"
  shows "res_status (wa_step a s) = Some kRunning \<or> res_status (wa_step a s) = Some kReady \<longrightarrow>
           order (wa_step a s) = [] \<or> firers (wa_trace (wa_step a s)) \<noteq> []"
proof (cases a)
  case Advance
  have e: "vec s = [] \<Longrightarrow> order s = []"
    using wa_invD(1) [OF assms(1)] order_nonempty [OF wa_invD(3) [OF assms(1)]] by simp
  show ?thesis
    using Advance assms(4) e
    by (auto simp: advance_def install_def fan_in_def fire_def run_res_def
        split: wa_pc.splits list.splits if_splits)
next
  case (Complete i)
  then show ?thesis using assms(4) by (simp add: complete_def)
next
  case (Drain i)
  then show ?thesis
    using assms(4) by (auto simp: drain_def fan_in_def fire_def run_res_def split: if_splits)
next
  case Walk
  have "walker s \<noteq> None \<longrightarrow> res_status s = Some kRunning"
    using assms(3) by (simp add: res_inv_def)
  with Walk show ?thesis
    using assms(4)
    by (auto simp: walk_def whenComplete_returns_def split: option.splits list.splits if_splits)
next
  case WaitRes
  then show ?thesis using assms(2) by simp
qed

lemma nowait_exec:
  assumes "n < 2 ^ 64" and "wa_inv None n s" and "WaitRes \<notin> set sch" and "res_inv s"
    and "res_status s = Some kRunning \<or> res_status s = Some kReady \<longrightarrow>
           order s = [] \<or> firers (wa_trace s) \<noteq> []"
  shows "res_status (wa_exec sch s) = Some kRunning \<or> res_status (wa_exec sch s) = Some kReady \<longrightarrow>
           order (wa_exec sch s) = [] \<or> firers (wa_trace (wa_exec sch s)) \<noteq> []"
  using assms(2-5)
proof (induction sch arbitrary: s)
  case Nil
  then show ?case by simp
next
  case (Cons a sch)
  have a: "a \<noteq> WaitRes" "WaitRes \<notin> set sch" using Cons.prems(2) by auto
  have "wa_inv None n (wa_step a s)" using Cons.prems(1) assms(1) by (rule wa_step_inv)
  moreover note a(2)
  moreover have "res_inv (wa_step a s)"
    using Cons.prems(1) assms(1) Cons.prems(3) by (rule wa_step_res)
  moreover have "res_status (wa_step a s) = Some kRunning \<or> res_status (wa_step a s) = Some kReady \<longrightarrow>
           order (wa_step a s) = [] \<or> firers (wa_trace (wa_step a s)) \<noteq> []"
    using Cons.prems(1) a(1) Cons.prems(3,4) by (rule nowait_step)
  ultimately have "res_status (wa_exec sch (wa_step a s)) = Some kRunning
        \<or> res_status (wa_exec sch (wa_step a s)) = Some kReady \<longrightarrow>
      order (wa_exec sch (wa_step a s)) = [] \<or> firers (wa_trace (wa_exec sch (wa_step a s))) \<noteq> []"
    by (rule Cons.IH)
  then show ?case by simp
qed


section \<open>\<^verbatim>\<open>when_all\<close>: what the functors of the inputs do has no influence\<close>

lemma nth_upd: "xs[i := x] ! j = (if i = j \<and> i < length xs then x else xs ! j)"
  by (cases "i < length xs") (simp_all add: nth_list_update list_update_beyond)



lemma alike_vec:
  assumes "alike s t" and "in_status x = in_status y" and "in_chain x = in_chain y"
  shows "alike (s\<lparr>vec := (vec s)[i := x]\<rparr>) (t\<lparr>vec := (vec t)[i := y]\<rparr>)"
  using assms by (auto simp: alike_def nth_upd)














section \<open>\<^verbatim>\<open>when_all\<close>: reachable states and the example runs\<close>

lemma when_all_reachable:
  assumes "length specs < 2 ^ 64" and "fm = Tuple LambdaFirst \<longrightarrow> specs = []"
  shows "wa_inv None (length specs) (wa_exec sch (when_all_init fm (inputs_of specs)))"
    and "res_inv (wa_exec sch (when_all_init fm (inputs_of specs)))"
    and "agg_inv specs (wa_exec sch (when_all_init fm (inputs_of specs)))"
proof -
  note i = wa_inv_init [OF assms(2)]
  show "wa_inv None (length specs) (wa_exec sch (when_all_init fm (inputs_of specs)))"
    using i assms(1) by (rule wa_exec_inv)
  show "res_inv (wa_exec sch (when_all_init fm (inputs_of specs)))"
    using assms(1) i res_inv_init by (rule wa_exec_res)
  show "agg_inv specs (wa_exec sch (when_all_init fm (inputs_of specs)))"
    using assms(1) i res_inv_init spec_inv_init agg_inv_init by (rule wa_exec_agg)
qed



lemma when_all_nowait:
  assumes "length specs < 2 ^ 64" and "fm = Tuple LambdaFirst \<longrightarrow> specs = []"
    and "WaitRes \<notin> set sch" and "specs \<noteq> []"
    and "res_status (wa_exec sch (when_all_init fm (inputs_of specs))) = Some kRunning
         \<or> res_status (wa_exec sch (when_all_init fm (inputs_of specs))) = Some kReady"
  shows "firers (wa_trace (wa_exec sch (when_all_init fm (inputs_of specs)))) \<noteq> []"
proof -
  let ?s = "wa_exec sch (when_all_init fm (inputs_of specs))"
  have "res_status ?s = Some kRunning \<or> res_status ?s = Some kReady \<longrightarrow>
          order ?s = [] \<or> firers (wa_trace ?s) \<noteq> []"
    using assms(1) wa_inv_init [OF assms(2)] assms(3) res_inv_init
    by (rule nowait_exec) (simp add: when_all_init_simps)
  moreover have "order ?s \<noteq> []"
    using order_nonempty [OF wa_invD(3) [OF when_all_reachable(1) [OF assms(1,2)]]] assms(4)
    by simp
  ultimately show ?thesis using assms(5) by blast
qed

lemma wa_ordered_suffix: "wa_ordered (ys @ zs) \<Longrightarrow> wa_ordered zs"
  by (induction ys rule: wa_ordered.induct) simp_all

lemma wa_ordered_Installed: "wa_ordered (ys @ Installed i # zs) \<Longrightarrow> StoredF \<in> set zs"
  using wa_ordered_suffix [of ys "Installed i # zs"] by simp

lemma wa_ordered_Observed: "wa_ordered (ys @ Observed i v # zs) \<Longrightarrow> i \<in> set (installeds zs)"
  using wa_ordered_suffix [of ys "Observed i v # zs"] by simp

lemma wa_ordered_Fired: "wa_ordered (ys @ Fired i # zs) \<Longrightarrow> \<exists>zs'. zs = Observed i 1 # zs'"
  using wa_ordered_suffix [of ys "Fired i # zs"] by simp

lemma observers_append: "observers (ys @ zs) = observers ys @ observers zs"
  by (induction ys rule: observers.induct) simp_all

lemma all_observed_length:
  assumes "wa_inv None n s"
  shows "(length (observers (wa_trace s)) = n) = (set (observers (wa_trace s)) = {..<n})"
proof
  note D = wa_invD [OF assms]
  assume "length (observers (wa_trace s)) = n"
  then have "card {..<n} \<le> card (set (observers (wa_trace s)))" using D(6) by (simp add: distinct_card)
  with D(7) show "set (observers (wa_trace s)) = {..<n}" by (intro card_seteq) auto
next
  note D = wa_invD [OF assms]
  assume "set (observers (wa_trace s)) = {..<n}"
  then have "card (set (observers (wa_trace s))) = n" by simp
  then show "length (observers (wa_trace s)) = n" using D(6) by (simp add: distinct_card)
qed

lemma quiet_observed:
  assumes "wa_inv None n s" and "quiet s"
  shows "set (observers (wa_trace s)) = {..<n}"
proof -
  note D = wa_invD [OF assms(1)]
  have pc: "wa_pc s = WReturned" using assms(2) by (simp add: quiet_def)
  then have "rev (installeds (wa_trace s)) = order s" using D(4) by (simp add: todo_def)
  then have "set (installeds (wa_trace s)) = set (order s)" by (metis set_rev)
  then have ins: "set (installeds (wa_trace s)) = {..<n}" using D(3) by simp
  have "i \<in> set (observers (wa_trace s))" if "i < n" for i
  proof -
    have "in_chain (vec s ! i) = 0" using assms(2) that D(1) by (simp add: quiet_def)
    moreover have "i \<in> set (installeds (wa_trace s))" using ins that by simp
    ultimately show ?thesis using D(5) [OF that] by (simp add: input_ok_def split: if_splits)
  qed
  then show ?thesis using D(7) by auto
qed

lemma firers_all_observed:
  assumes "wa_inv None n s"
  shows "firers (wa_trace s) =
           (if set (observers (wa_trace s)) = {..<n} \<and> 0 < n
            then [hd (observers (wa_trace s))] else [])"
proof -
  note D = wa_invD [OF assms]
  have "(length (observers (wa_trace s)) = n \<and> observers (wa_trace s) \<noteq> []) =
        (set (observers (wa_trace s)) = {..<n} \<and> 0 < n)"
    using all_observed_length [OF assms] by auto
  then show ?thesis using D(9) by simp
qed

lemma fired_started:
  assumes "wa_inv None n s" and "res_inv s" and "firers (wa_trace s) \<noteq> []"
  shows "res_started s = 1"
proof -
  have "wa_trace s \<noteq> []" using assms(3) by auto
  then have "order s \<noteq> []" using wa_invD(11) [OF assms(1)] by blast
  then show ?thesis using assms(2,3) by (auto simp: res_inv_def)
qed


lemmas wa_defs = wa_schedule_def wa_specs_def late_schedule_def late_specs_def when_all_init_def
  inputs_of_def new_input_def visit_def advance_def install_def fan_in_def fire_def run_res_def
  complete_def drain_def walk_def whenComplete_returns_def wait_res_def runToResult_def
  setAsResult_def Let_def

lemma wa_range_run:
  "wa_exec wa_schedule (when_all_init Range (inputs_of wa_specs)) =
     \<lparr>vec = [\<lparr>resultBuf = Some 1, exception = None, in_status = kReady, in_func = Inr 1, in_chain = 0\<rparr>,
             \<lparr>resultBuf = None, exception = Some 7, in_status = kReady, in_func = Inl 7, in_chain = 0\<rparr>,
             \<lparr>resultBuf = Some 3, exception = None, in_status = kReady, in_func = Inr 3, in_chain = 0\<rparr>],
      shared_count = 0, shared_f = False, savedOffFn = False, order = [0, 1, 2],
      res_status = Some kReady,
      res_member = \<lparr>resultBuf = Some
          [\<lparr>resultBuf = Some 1, exception = None, in_status = kReady, in_func = Inr 1, in_chain = 0\<rparr>,
           \<lparr>resultBuf = None, exception = Some 7, in_status = kReady, in_func = Inl 7, in_chain = 0\<rparr>,
           \<lparr>resultBuf = Some 3, exception = None, in_status = kReady, in_func = Inr 3, in_chain = 0\<rparr>],
        exception = None\<rparr>,
      walker = None, res_started = 1, completed = [2, 0], form = Range, wa_pc = WReturned,
      crashed = False,
      wa_trace = [Fired 2, Observed 2 1, Installed 2, Observed 0 2, Observed 1 3,
                  Installed 1, Installed 0, StoredF]\<rparr>"
  by (simp add: wa_defs)

lemma wa_tuple_run:
  "wa_exec wa_schedule (when_all_init (Tuple TupleFirst) (inputs_of wa_specs)) =
     \<lparr>vec = [\<lparr>resultBuf = Some 1, exception = None, in_status = kReady, in_func = Inr 1, in_chain = 0\<rparr>,
             \<lparr>resultBuf = None, exception = Some 7, in_status = kReady, in_func = Inl 7, in_chain = 0\<rparr>,
             \<lparr>resultBuf = Some 3, exception = None, in_status = kReady, in_func = Inr 3, in_chain = 0\<rparr>],
      shared_count = 0, shared_f = False, savedOffFn = False, order = [2, 1, 0],
      res_status = Some kReady,
      res_member = \<lparr>resultBuf = Some
          [\<lparr>resultBuf = Some 1, exception = None, in_status = kReady, in_func = Inr 1, in_chain = 0\<rparr>,
           \<lparr>resultBuf = None, exception = Some 7, in_status = kReady, in_func = Inl 7, in_chain = 0\<rparr>,
           \<lparr>resultBuf = Some 3, exception = None, in_status = kReady, in_func = Inr 3, in_chain = 0\<rparr>],
        exception = None\<rparr>,
      walker = None, res_started = 1, completed = [2, 0], form = Tuple TupleFirst,
      wa_pc = WReturned, crashed = False,
      wa_trace = [Fired 2, Observed 2 1, Observed 0 2, Installed 0, Observed 1 3,
                  Installed 1, Installed 2, StoredF]\<rparr>"
  by (simp add: wa_defs)



lemma late_run:
  "wa_exec late_schedule (when_all_init Range (inputs_of late_specs)) =
     \<lparr>vec = [\<lparr>resultBuf = Some 1, exception = None, in_status = kReady, in_func = Inr 1, in_chain = 0\<rparr>,
             \<lparr>resultBuf = Some 2, exception = None, in_status = kReady, in_func = Inr 2, in_chain = 0\<rparr>],
      shared_count = 0, shared_f = False, savedOffFn = False, order = [0, 1],
      res_status = Some kRunning, res_member = \<lparr>resultBuf = None, exception = None\<rparr>,
      walker = Some [0, 1], res_started = 1, completed = [1, 0], form = Range, wa_pc = WReturned,
      crashed = False,
      wa_trace = [Fired 0, Observed 0 1, Observed 1 2, Installed 1, Installed 0, StoredF]\<rparr>"
  by (simp add: wa_defs)

lemma wa_specs_length: "length wa_specs < 2 ^ 64" "length late_specs < 2 ^ 64"
  by (simp_all add: wa_specs_def late_specs_def)

lemma wa_runs_quiet:
  "quiet (wa_exec wa_schedule (when_all_init Range (inputs_of wa_specs)))"
  "quiet (wa_exec wa_schedule (when_all_init (Tuple TupleFirst) (inputs_of wa_specs)))"
  "quiet (wa_exec late_schedule (when_all_init Range (inputs_of late_specs)))"
  unfolding wa_range_run wa_tuple_run late_run by (simp_all add: quiet_def All_less_Suc)


section \<open>The claims about \<^verbatim>\<open>when_all\<close>\<close>

subsection \<open>The fan-in fires \<^verbatim>\<open>shared->f\<close> once\<close>

text \<open>
  C5, as amended. For the iterator form, and for the tuple form in which the tuple is
  reached before \<^verbatim>\<open>shared\<close> is moved into the closure (or which has no input), any
  inputs (fewer than \<open>2 ^ 64\<close>, the range of the counter) and any schedule of the calling
  thread, the completing inputs, the threads that take their chains and the holders of
  \<^verbatim>\<open>res\<close>: \<^verbatim>\<open>shared->f\<close> is never called while it is empty; \<^verbatim>\<open>then\<close> is called on an input
  only after \<^verbatim>\<open>shared->f\<close> was assigned; the continuation of an input does its
  \<^verbatim>\<open>fetch_sub\<close> only after \<^verbatim>\<open>then\<close> was called on that input, and at most once;
  \<^verbatim>\<open>shared->f\<close> is called only by a continuation whose \<^verbatim>\<open>fetch_sub\<close> has just returned
  1, and every continuation that saw 1 has called it; it has been called exactly when all
  inputs have decremented, once, by the last continuation to decrement, and then every
  input is ready. When \<^verbatim>\<open>shared->f\<close> has been called, the core of \<^verbatim>\<open>res\<close> is \<^verbatim>\<open>kRunning\<close>
  or \<^verbatim>\<open>kReady\<close>; when no holder of \<^verbatim>\<open>res\<close> waits on it, it is so only then. The
  functor \<^verbatim>\<open>whenComplete\<close> is executing exactly while the core is \<^verbatim>\<open>kRunning\<close>, and it
  has been started once when the core is \<^verbatim>\<open>kRunning\<close> or (with inputs) \<^verbatim>\<open>kReady\<close> and
  never otherwise. When \<^verbatim>\<open>when_all\<close> has returned, all inputs are ready and no
  continuation is left on a chain, every input has decremented exactly once.
\<close>

theorem when_all_fires_f_once:
  assumes "length specs < 2 ^ 64" and "fm = Tuple LambdaFirst \<longrightarrow> specs = []"
    and "s = wa_exec sch (when_all_init fm (inputs_of specs))"
  shows "\<not> crashed s
    \<and> (\<forall>ys i zs. wa_trace s = ys @ Installed i # zs \<longrightarrow> StoredF \<in> set zs)
    \<and> (\<forall>ys i v zs. wa_trace s = ys @ Observed i v # zs \<longrightarrow>
          i \<in> set (installeds zs) \<and> i \<notin> set (observers ys) \<and> i \<notin> set (observers zs))
    \<and> (\<forall>ys i zs. wa_trace s = ys @ Fired i # zs \<longrightarrow> (\<exists>zs'. zs = Observed i 1 # zs'))
    \<and> (\<forall>i. Observed i 1 \<in> set (wa_trace s) \<longrightarrow> Fired i \<in> set (wa_trace s))
    \<and> firers (wa_trace s) =
          (if set (observers (wa_trace s)) = {..<length specs} \<and> specs \<noteq> []
           then [hd (observers (wa_trace s))] else [])
    \<and> (firers (wa_trace s) \<noteq> [] \<longrightarrow> (\<forall>i<length specs. in_status (vec s ! i) = kReady))
    \<and> (firers (wa_trace s) \<noteq> [] \<longrightarrow>
          res_status s = Some kRunning \<or> res_status s = Some kReady)
    \<and> (WaitRes \<notin> set sch \<and> specs \<noteq> [] \<longrightarrow>
          (res_status s = Some kRunning \<or> res_status s = Some kReady) =
          (firers (wa_trace s) \<noteq> []))
    \<and> (res_status s = Some kRunning) = (walker s \<noteq> None)
    \<and> res_started s =
          (if res_status s = Some kRunning \<or> res_status s = Some kReady \<and> specs \<noteq> []
           then 1 else 0)
    \<and> (quiet s \<longrightarrow> mset (observers (wa_trace s)) = mset [0..<length specs])"
proof -
  note R = when_all_reachable [OF assms(1,2), of sch, folded assms(3)]
  note D = wa_invD [OF R(1)]
  have on: "(order s = []) = (specs = [])" using order_nonempty [OF D(3)] by simp
  have 1: "\<not> crashed s" by (rule D(15))
  have 2: "\<forall>ys i zs. wa_trace s = ys @ Installed i # zs \<longrightarrow> StoredF \<in> set zs"
    using D(16) wa_ordered_Installed by metis
  have 3: "\<forall>ys i v zs. wa_trace s = ys @ Observed i v # zs \<longrightarrow>
          i \<in> set (installeds zs) \<and> i \<notin> set (observers ys) \<and> i \<notin> set (observers zs)"
  proof (intro allI impI)
    fix ys i v zs assume tr: "wa_trace s = ys @ Observed i v # zs"
    have "i \<in> set (installeds zs)" using D(16) wa_ordered_Observed unfolding tr by blast
    moreover have "distinct (observers ys @ i # observers zs)"
      using D(6) unfolding tr by (simp add: observers_append)
    ultimately show "i \<in> set (installeds zs) \<and> i \<notin> set (observers ys) \<and> i \<notin> set (observers zs)"
      by auto
  qed
  have 4: "\<forall>ys i zs. wa_trace s = ys @ Fired i # zs \<longrightarrow> (\<exists>zs'. zs = Observed i 1 # zs')"
    using D(16) wa_ordered_Fired by metis
  have 5: "\<forall>i. Observed i 1 \<in> set (wa_trace s) \<longrightarrow> Fired i \<in> set (wa_trace s)"
    using D(17) by blast
  have 6: "firers (wa_trace s) =
          (if set (observers (wa_trace s)) = {..<length specs} \<and> specs \<noteq> []
           then [hd (observers (wa_trace s))] else [])"
    using firers_all_observed [OF R(1)] by simp
  have 7: "firers (wa_trace s) \<noteq> [] \<longrightarrow> (\<forall>i<length specs. in_status (vec s ! i) = kReady)"
  proof (intro impI allI)
    fix i assume "firers (wa_trace s) \<noteq> []" and i: "i < length specs"
    then have "set (observers (wa_trace s)) = {..<length specs}" using 6 by (simp split: if_splits)
    then have "i \<in> set (observers (wa_trace s))" using i by simp
    then show "in_status (vec s ! i) = kReady" by (rule observed_ready [OF R(1) i])
  qed
  have 8: "firers (wa_trace s) \<noteq> [] \<longrightarrow> res_status s = Some kRunning \<or> res_status s = Some kReady"
    using R(2) by (simp add: res_inv_def)
  have 9: "WaitRes \<notin> set sch \<and> specs \<noteq> [] \<longrightarrow>
          (res_status s = Some kRunning \<or> res_status s = Some kReady) =
          (firers (wa_trace s) \<noteq> [])"
    using when_all_nowait [OF assms(1,2), of sch, folded assms(3)] 8 by blast
  have 10: "(res_status s = Some kRunning) = (walker s \<noteq> None)"
    using R(2) by (simp add: res_inv_def)
  have 11: "res_started s =
          (if res_status s = Some kRunning \<or> res_status s = Some kReady \<and> specs \<noteq> []
           then 1 else 0)"
    using R(2) on by (simp add: res_inv_def)
  have 12: "quiet s \<longrightarrow> mset (observers (wa_trace s)) = mset [0..<length specs]"
  proof
    assume "quiet s"
    then have e: "set (observers (wa_trace s)) = set [0..<length specs]"
      using quiet_observed [OF R(1)] by (simp add: lessThan_atLeast0)
    have d: "distinct [0..<length specs]" by simp
    show "mset (observers (wa_trace s)) = mset [0..<length specs]"
      using set_eq_iff_mset_eq_distinct [OF D(6) d] e by blast
  qed
  show ?thesis using 1 2 3 4 5 6 7 8 9 10 11 12 by blast
qed

text \<open>The example run, in both forms: the third input is the last to complete, its
  continuation sees 1 and is the one that calls \<^verbatim>\<open>shared->f\<close>; a holder of \<^verbatim>\<open>res\<close> had
  started \<^verbatim>\<open>whenComplete\<close> before. In the second example nobody waits, and \<^verbatim>\<open>shared->f\<close>
  starts \<^verbatim>\<open>whenComplete\<close>.\<close>

theorem when_all_fires_f_once_witness:
  "length wa_specs < 2 ^ 64 \<and> length late_specs < 2 ^ 64 \<and> WaitRes \<notin> set late_schedule
   \<and> late_specs \<noteq> []
   \<and> quiet (wa_exec wa_schedule (when_all_init Range (inputs_of wa_specs)))
   \<and> quiet (wa_exec wa_schedule (when_all_init (Tuple TupleFirst) (inputs_of wa_specs)))
   \<and> wa_trace (wa_exec wa_schedule (when_all_init Range (inputs_of wa_specs))) =
        [Fired 2, Observed 2 1] @ Installed 2 # [Observed 0 2, Observed 1 3, Installed 1, Installed 0, StoredF]
   \<and> wa_trace (wa_exec wa_schedule (when_all_init (Tuple TupleFirst) (inputs_of wa_specs))) =
        [Fired 2, Observed 2 1, Observed 0 2] @ Installed 0 # [Observed 1 3, Installed 1, Installed 2, StoredF]
   \<and> firers (wa_trace (wa_exec wa_schedule (when_all_init Range (inputs_of wa_specs)))) = [2]
   \<and> firers (wa_trace (wa_exec wa_schedule (when_all_init (Tuple TupleFirst) (inputs_of wa_specs)))) = [2]
   \<and> mset (observers (wa_trace (wa_exec wa_schedule (when_all_init Range (inputs_of wa_specs))))) = mset [0, 1, 2]
   \<and> mset (observers (wa_trace (wa_exec wa_schedule (when_all_init (Tuple TupleFirst) (inputs_of wa_specs))))) = mset [0, 1, 2]
   \<and> res_status (wa_exec wa_schedule (when_all_init Range (inputs_of wa_specs))) = Some kReady
   \<and> res_started (wa_exec wa_schedule (when_all_init (Tuple TupleFirst) (inputs_of wa_specs))) = 1
   \<and> firers (wa_trace (wa_exec late_schedule (when_all_init Range (inputs_of late_specs)))) = [0]
   \<and> res_status (wa_exec late_schedule (when_all_init Range (inputs_of late_specs))) = Some kRunning
   \<and> walker (wa_exec late_schedule (when_all_init Range (inputs_of late_specs))) = Some [0, 1]"
  using when_all_fires_f_once [OF wa_specs_length(1) _ refl, of Range wa_schedule]
    when_all_fires_f_once [OF wa_specs_length(1) _ refl, of "Tuple TupleFirst" wa_schedule]
    when_all_fires_f_once [OF wa_specs_length(2) _ refl, of Range late_schedule]
    wa_runs_quiet wa_specs_length
  unfolding wa_range_run wa_tuple_run late_run
  by (simp add: wa_specs_def late_specs_def late_schedule_def)

text \<open>
  The claim as it was stated fails where it takes the continuation that sees 1 for that
  of the last input to complete. In the second example the first input completes before
  the second, but the chain of the second is taken first: the continuation of the first
  input is the last to decrement, sees 1 and calls \<^verbatim>\<open>shared->f\<close>.
\<close>

theorem last_to_complete_need_not_fire:
  "completed (wa_exec late_schedule (when_all_init Range (inputs_of late_specs))) = [1, 0]
   \<and> observers (wa_trace (wa_exec late_schedule (when_all_init Range (inputs_of late_specs)))) = [0, 1]
   \<and> Observed 0 1 \<in> set (wa_trace (wa_exec late_schedule (when_all_init Range (inputs_of late_specs))))
   \<and> firers (wa_trace (wa_exec late_schedule (when_all_init Range (inputs_of late_specs)))) = [0]
   \<and> \<not> crashed (wa_exec late_schedule (when_all_init Range (inputs_of late_specs)))"
  unfolding late_run by simp

subsection \<open>A failed input does not cut \<^verbatim>\<open>when_all\<close> short\<close>



end
